theory Spec2Isabelle
  imports Complex_Main "HOL-Library.Char_ord" "HOL-Library.List_Lexorder" "HOL-Library.Multiset"
begin

section \<open>TimeMaster: the task composable and the task card\<close>

text \<open>
  The development embeds \<^verbatim>\<open>src/composables/useTasks.js\<close> and the computed property
  \<^verbatim>\<open>progressPercentage\<close> of \<^verbatim>\<open>src/components/TaskCard.vue\<close>.

  The composable runs in one of two modes. When \<^verbatim>\<open>isTauri\<close> holds, every command is
  forwarded with \<^verbatim>\<open>invoke\<close> to the native layer, whose code is not among the sources.
  Otherwise the composable keeps the tasks in the array \<^verbatim>\<open>tasks.value\<close> and carries the
  lifecycle logic itself. The commands below are the branches taken when
  \<^verbatim>\<open>isTauri\<close> is false; of the delegating mode only \<^verbatim>\<open>refreshTasks\<close> is embedded,
  with the reply of the native layer as an argument.

  Conventions of the embedding:
  \<^item> the array \<^verbatim>\<open>tasks.value\<close> is a list, passed in and returned;
  \<^item> \<^verbatim>\<open>new Date().toISOString()\<close> and the generated id are read from the environment,
    so they are arguments, one for every reading of the clock in the order of evaluation;
  \<^item> numbers are rationals: \<^verbatim>\<open>progress\<close> and \<^verbatim>\<open>target\<close> are stored as given, whole
    or not, and are only compared, except for \<^verbatim>\<open>progress += 1\<close>, which is exact on the
    whole numbers a session counts (below \<open>2^53\<close>);
  \<^item> \<^verbatim>\<open>null\<close> and \<^verbatim>\<open>undefined\<close> are both \<open>None\<close> in a stored task, since the
    code only ever tests them with \<^verbatim>\<open>??\<close>, \<^verbatim>\<open>===\<close> against a string, or truthiness.
\<close>

subsection \<open>Objects\<close>

text \<open>
  A key of an object literal handed to a command is missing, holds
  \<^verbatim>\<open>null\<close>/\<^verbatim>\<open>undefined\<close>, or holds a value. The difference between the first two
  shows in a spread: a missing key leaves the key of the object spread before it alone,
  a key holding \<^verbatim>\<open>null\<close> overwrites it.
\<close>

datatype 'a field = Absent | Nullish | Given 'a

text \<open>The keys of a command payload that \<^verbatim>\<open>normalizeTask\<close> reads (it drops all others,
  among them \<^verbatim>\<open>repeat\<close> and \<^verbatim>\<open>dateRange\<close> of the dialog).\<close>

record payload =
  p_id :: "string field"
  p_name :: "string field"
  p_description :: "string field"
  p_type :: "string field"
  p_progress :: "rat field"
  p_target :: "rat field"
  p_repeatRule :: "string field"
  p_startDate :: "string field"
  p_endDate :: "string field"
  p_status :: "string field"
  p_createdAt :: "string field"
  p_updatedAt :: "string field"

text \<open>The object that reaches \<^verbatim>\<open>normalizeTask\<close>, after the spreads: every key read gives
  a value or \<^verbatim>\<open>undefined\<close>/\<^verbatim>\<open>null\<close>. Both callers set \<^verbatim>\<open>id\<close> to a string.\<close>

record raw =
  r_id :: string
  r_name :: "string option"
  r_description :: "string option"
  r_type :: "string option"
  r_progress :: "rat option"
  r_target :: "rat option"
  r_repeatRule :: "string option"
  r_startDate :: "string option"
  r_endDate :: "string option"
  r_status :: "string option"
  r_createdAt :: "string option"
  r_updatedAt :: "string option"

text \<open>A stored task, as \<^verbatim>\<open>normalizeTask\<close> builds it.\<close>

record task =
  id_t :: string
  name :: "string option"
  description :: string
  type_t :: "string option"
  progress :: rat
  target :: rat
  repeatRule :: "string option"
  startDate :: "string option"
  endDate :: "string option"
  status :: string
  createdAt :: string
  updatedAt :: string

type_synonym store = "task list"

text \<open>What a command returns: \<^verbatim>\<open>undefined\<close>, \<^verbatim>\<open>null\<close> or a task object. No command
  of the in-memory mode throws.\<close>

datatype reply = Undefined | Null | Task task

subsection \<open>normalizeTask\<close>

text \<open>\<^verbatim>\<open>a ?? b\<close>\<close>

definition nullish :: "'a option \<Rightarrow> 'a \<Rightarrow> 'a" where
  "nullish a b = (case a of None \<Rightarrow> b | Some v \<Rightarrow> v)"

text \<open>The two strings are the readings of the clock for the defaults of
  \<^verbatim>\<open>createdAt\<close> and \<^verbatim>\<open>updatedAt\<close>.\<close>

definition normalizeTask :: "raw \<Rightarrow> string \<Rightarrow> string \<Rightarrow> task" where
  "normalizeTask payload now1 now2 =
     \<lparr> id_t = r_id payload,
       name = r_name payload,
       description = nullish (r_description payload) '''',
       type_t = r_type payload,
       progress = nullish (r_progress payload) 0,
       target = nullish (r_target payload) 1,
       repeatRule = r_repeatRule payload,
       startDate = r_startDate payload,
       endDate = r_endDate payload,
       status = nullish (r_status payload) ''active'',
       createdAt = nullish (r_createdAt payload) now1,
       updatedAt = nullish (r_updatedAt payload) now2 \<rparr>"

subsection \<open>sortTasks\<close>

text \<open>
  The strings of \<^verbatim>\<open>toISOString\<close> have one fixed width and layout,
  \<^verbatim>\<open>YYYY-MM-DDTHH:mm:ss.sssZ\<close>: digits between fixed punctuation.
\<close>

definition digit :: "char \<Rightarrow> bool" where
  "digit c = (CHR ''0'' \<le> c \<and> c \<le> CHR ''9'')"

fun hasLayout :: "string \<Rightarrow> string \<Rightarrow> bool" where
  "hasLayout [] [] = True"
| "hasLayout (p # ps) (c # cs) = ((if p = CHR ''d'' then digit c else c = p) \<and> hasLayout ps cs)"
| "hasLayout ps cs = False"

definition isoStamp :: "string \<Rightarrow> bool" where
  "isoStamp s = hasLayout ''dddd-dd-ddTdd:dd:dd.dddZ'' s"

text \<open>
  \<^verbatim>\<open>a.localeCompare(b)\<close> is the collation of the host. On two stamps of the layout
  above it is decided by the first digit in which they differ, so it is the order of the
  code units read from the left, which is the order of \<open>string\<close> here. On other strings
  the collation is not that order (it puts \<^verbatim>\<open>.\<close> before \<^verbatim>\<open>+\<close>, for one); it is left
  unspecified, so that whatever is proved of the order is proved of stamps only.
\<close>

definition collation :: "string \<Rightarrow> string \<Rightarrow> int" where
  "collation = undefined"

definition localeCompare :: "string \<Rightarrow> string \<Rightarrow> int" where
  "localeCompare a b =
     (if isoStamp a \<and> isoStamp b
      then (if a < b then - 1 else if a = b then 0 else 1)
      else collation a b)"

text \<open>The comparator \<^verbatim>\<open>(a, b) => (b.updatedAt ?? "").localeCompare(a.updatedAt ?? "")\<close>;
  \<^verbatim>\<open>updatedAt\<close> of a stored task is never nullish.\<close>

definition compareTasks :: "task \<Rightarrow> task \<Rightarrow> int" where
  "compareTasks a b = localeCompare (updatedAt b) (updatedAt a)"

text \<open>
  \<^verbatim>\<open>Array.prototype.sort\<close> with a comparator: the result is a permutation in which
  \<open>a\<close> precedes \<open>b\<close> when the comparator is negative on \<open>(a, b)\<close>, and elements that
  compare equal keep their order (the sort is stable since ECMAScript 2019). Insertion
  from the right, placing an element before the first one it does not exceed, computes
  that permutation.
\<close>

fun insertBy :: "('a \<Rightarrow> 'a \<Rightarrow> int) \<Rightarrow> 'a \<Rightarrow> 'a list \<Rightarrow> 'a list" where
  "insertBy cmp x [] = [x]"
| "insertBy cmp x (y # ys) = (if cmp x y \<le> 0 then x # y # ys else y # insertBy cmp x ys)"

definition sortBy :: "('a \<Rightarrow> 'a \<Rightarrow> int) \<Rightarrow> 'a list \<Rightarrow> 'a list" where
  "sortBy cmp xs = foldr (insertBy cmp) xs []"

definition sortTasks :: "store \<Rightarrow> store" where
  "sortTasks tasks = sortBy compareTasks tasks"

subsection \<open>The filtered views\<close>

definition activeTasks :: "store \<Rightarrow> task list" where
  "activeTasks tasks = filter (\<lambda>task. status task = ''active'') tasks"

definition completedTasks :: "store \<Rightarrow> task list" where
  "completedTasks tasks = filter (\<lambda>task. status task = ''completed'') tasks"

definition archivedTasks :: "store \<Rightarrow> task list" where
  "archivedTasks tasks = filter (\<lambda>task. status task = ''archived'') tasks"

subsection \<open>Array helpers\<close>

text \<open>\<^verbatim>\<open>findIndex\<close>, with \<open>None\<close> for \<open>-1\<close>; \<^verbatim>\<open>find\<close> is \<^const>\<open>List.find\<close>, and the
  object it returns is the one at the index \<open>findIndex\<close> gives.\<close>

fun findIndex :: "('a \<Rightarrow> bool) \<Rightarrow> 'a list \<Rightarrow> nat option" where
  "findIndex P [] = None"
| "findIndex P (x # xs) = (if P x then Some 0 else map_option Suc (findIndex P xs))"

text \<open>\<^verbatim>\<open>xs[i]\<close>: \<^verbatim>\<open>undefined\<close> out of range.\<close>

definition elemAt :: "task list \<Rightarrow> nat \<Rightarrow> reply" where
  "elemAt xs i = (if i < length xs then Task (xs ! i) else Undefined)"

text \<open>A key of \<^verbatim>\<open>{...payload}\<close> alone, and of \<^verbatim>\<open>{...task, ...payload}\<close>.\<close>

definition read_key :: "'a field \<Rightarrow> 'a option" where
  "read_key f = (case f of Absent \<Rightarrow> None | Nullish \<Rightarrow> None | Given v \<Rightarrow> Some v)"

definition spread :: "'a option \<Rightarrow> 'a field \<Rightarrow> 'a option" where
  "spread old f = (case f of Absent \<Rightarrow> old | Nullish \<Rightarrow> None | Given v \<Rightarrow> Some v)"

subsection \<open>The commands\<close>

text \<open>\<^verbatim>\<open>addTask\<close>: \<open>fresh\<close> is the generated id, the two strings the clock.\<close>

definition addTask :: "payload \<Rightarrow> string \<Rightarrow> string \<Rightarrow> string \<Rightarrow> store \<Rightarrow> store \<times> reply" where
  "addTask payload fresh now1 now2 tasks =
     (let obj = \<lparr> r_id = fresh,
                  r_name = read_key (p_name payload),
                  r_description = read_key (p_description payload),
                  r_type = read_key (p_type payload),
                  r_progress = read_key (p_progress payload),
                  r_target = read_key (p_target payload),
                  r_repeatRule = read_key (p_repeatRule payload),
                  r_startDate = read_key (p_startDate payload),
                  r_endDate = read_key (p_endDate payload),
                  r_status = read_key (p_status payload),
                  r_createdAt = read_key (p_createdAt payload),
                  r_updatedAt = read_key (p_updatedAt payload) \<rparr>;
          tasks' = sortTasks (normalizeTask obj now1 now2 # tasks)
      in (tasks', elemAt tasks' 0))"

text \<open>
  \<^verbatim>\<open>updateTask\<close>: the clock is read for \<^verbatim>\<open>updatedAt\<close> when the object literal is built
  (\<open>now1\<close>), and once more inside \<^verbatim>\<open>normalizeTask\<close> if \<^verbatim>\<open>createdAt\<close> came out nullish
  (\<open>now2\<close>). No stored id is nullish, so a payload without a string id finds nothing.
  The merged \<^verbatim>\<open>id\<close> is the payload's, the one that was found.
\<close>

definition spreadTask :: "task \<Rightarrow> payload \<Rightarrow> string \<Rightarrow> string \<Rightarrow> raw" where
  "spreadTask item payload i now1 =
     \<lparr> r_id = i,
       r_name = spread (name item) (p_name payload),
       r_description = spread (Some (description item)) (p_description payload),
       r_type = spread (type_t item) (p_type payload),
       r_progress = spread (Some (progress item)) (p_progress payload),
       r_target = spread (Some (target item)) (p_target payload),
       r_repeatRule = spread (repeatRule item) (p_repeatRule payload),
       r_startDate = spread (startDate item) (p_startDate payload),
       r_endDate = spread (endDate item) (p_endDate payload),
       r_status = spread (Some (status item)) (p_status payload),
       r_createdAt = spread (Some (createdAt item)) (p_createdAt payload),
       r_updatedAt = Some now1 \<rparr>"

definition updateTask :: "payload \<Rightarrow> string \<Rightarrow> string \<Rightarrow> store \<Rightarrow> store \<times> reply" where
  "updateTask payload now1 now2 tasks =
     (case p_id payload of
        Given i \<Rightarrow>
          (case findIndex (\<lambda>item. id_t item = i) tasks of
             Some index \<Rightarrow>
               (let tasks' = sortTasks
                      (tasks[index := normalizeTask (spreadTask (tasks ! index) payload i now1) now2 now1])
                in (tasks', elemAt tasks' index))
           | None \<Rightarrow> (tasks, Null))
      | _ \<Rightarrow> (tasks, Null))"

definition deleteTask :: "string \<Rightarrow> store \<Rightarrow> store \<times> reply" where
  "deleteTask i tasks = (filter (\<lambda>task. id_t task \<noteq> i) tasks, Undefined)"

text \<open>The three commands below write to the object \<^verbatim>\<open>find\<close> returned, which is the
  element of the array at the first index with that id.\<close>

definition increaseProgress :: "string \<Rightarrow> string \<Rightarrow> store \<Rightarrow> store \<times> reply" where
  "increaseProgress i now tasks =
     (case findIndex (\<lambda>item. id_t item = i) tasks of
        None \<Rightarrow> (tasks, Null)
      | Some k \<Rightarrow>
          (let task = tasks ! k in
           if progress task < target task then
             (let task1 = task\<lparr>progress := progress task + 1\<rparr>;
                  task2 = (if progress task1 \<ge> target task1 \<and> status task1 \<noteq> ''archived''
                           then task1\<lparr>status := ''completed''\<rparr> else task1);
                  task3 = task2\<lparr>updatedAt := now\<rparr>
              in (sortTasks (tasks[k := task3]), Task task3))
           else (tasks, Task task)))"

definition archiveTask :: "string \<Rightarrow> string \<Rightarrow> store \<Rightarrow> store \<times> reply" where
  "archiveTask i now tasks =
     (case findIndex (\<lambda>item. id_t item = i) tasks of
        Some k \<Rightarrow>
          (let task1 = (tasks ! k)\<lparr>status := ''archived''\<rparr>;
               task2 = task1\<lparr>updatedAt := now\<rparr>
           in (sortTasks (tasks[k := task2]), Task task2))
      | None \<Rightarrow> (tasks, Null))"

definition reopenTask :: "string \<Rightarrow> string \<Rightarrow> store \<Rightarrow> store \<times> reply" where
  "reopenTask i now tasks =
     (case findIndex (\<lambda>item. id_t item = i) tasks of
        Some k \<Rightarrow>
          (let task1 = (tasks ! k)\<lparr>status := ''active''\<rparr>;
               task2 = (if type_t task1 = Some ''cycle'' then task1\<lparr>progress := 0\<rparr> else task1);
               task3 = task2\<lparr>updatedAt := now\<rparr>
           in (sortTasks (tasks[k := task3]), Task task3))
      | None \<Rightarrow> (tasks, Null))"

subsection \<open>Command sequences\<close>

datatype command =
    Create payload string string string
  | Edit payload string string
  | Delete string
  | IncreaseProgress string string
  | Archive string string
  | Reopen string string

fun exec :: "command \<Rightarrow> store \<Rightarrow> store \<times> reply" where
  "exec (Create payload fresh now1 now2) tasks = addTask payload fresh now1 now2 tasks"
| "exec (Edit payload now1 now2) tasks = updateTask payload now1 now2 tasks"
| "exec (Delete i) tasks = deleteTask i tasks"
| "exec (IncreaseProgress i now) tasks = increaseProgress i now tasks"
| "exec (Archive i now) tasks = archiveTask i now tasks"
| "exec (Reopen i now) tasks = reopenTask i now tasks"

text \<open>The store after a sequence of commands, the first of the list first.\<close>

fun run :: "command list \<Rightarrow> store \<Rightarrow> store" where
  "run [] tasks = tasks"
| "run (c # cs) tasks = run cs (fst (exec c tasks))"

text \<open>\<^verbatim>\<open>increaseProgress\<close> called once for every clock reading of the list.\<close>

fun increaseMany :: "string \<Rightarrow> string list \<Rightarrow> store \<Rightarrow> store \<times> reply list" where
  "increaseMany i [] tasks = (tasks, [])"
| "increaseMany i (now # nows) tasks =
     (let (tasks1, r) = increaseProgress i now tasks;
          (tasks2, rs) = increaseMany i nows tasks1
      in (tasks2, r # rs))"

subsection \<open>The progress bar of the task card\<close>

text \<open>
  \<^verbatim>\<open>Math.round\<close>: the nearest integer, a half going up. The quotient and the product
  are each rounded to a double; \<open>fl\<close> stands for that rounding (the identity gives exact
  arithmetic). \<^verbatim>\<open>target || 1\<close> replaces a missing target and \<open>0\<close> by \<open>1\<close>.
\<close>

definition js_round :: "rat \<Rightarrow> int" where
  "js_round x = \<lfloor>x + 1 / 2\<rfloor>"

definition divisor :: "rat option \<Rightarrow> rat" where
  "divisor tgt = (case tgt of None \<Rightarrow> 1 | Some t \<Rightarrow> if t = 0 then 1 else t)"

definition progressPercentage :: "(rat \<Rightarrow> rat) \<Rightarrow> rat \<Rightarrow> rat option \<Rightarrow> int" where
  "progressPercentage fl prog tgt =
     (let target' = divisor tgt
      in min 100 (js_round (fl (fl (prog / target') * 100))))"

subsection \<open>Lookup, and the properties of a store\<close>

text \<open>\<^verbatim>\<open>findTaskById\<close> of the panel: \<^verbatim>\<open>tasks.value.find(task => task.id === id)\<close>.\<close>

definition findTaskById :: "string \<Rightarrow> store \<Rightarrow> task option" where
  "findTaskById i tasks = List.find (\<lambda>task. id_t task = i) tasks"

text \<open>Most recently touched first: no task is followed by one touched later. The order
  of the strings is the order in time when the strings are stamps.\<close>

definition descending :: "task list \<Rightarrow> bool" where
  "descending tasks = sorted_wrt (\<lambda>a b. updatedAt b \<le> updatedAt a) tasks"

definition stamped :: "task list \<Rightarrow> bool" where
  "stamped tasks = list_all (\<lambda>task. isoStamp (updatedAt task)) tasks"

text \<open>A command whose task gets a stamp for \<^verbatim>\<open>updatedAt\<close>: the reading of the clock,
  or for \<^verbatim>\<open>addTask\<close> the payload's \<^verbatim>\<open>updatedAt\<close> when it has one.\<close>

fun stampedCommand :: "command \<Rightarrow> bool" where
  "stampedCommand (Create payload fresh now1 now2) =
     isoStamp (nullish (read_key (p_updatedAt payload)) now2)"
| "stampedCommand (Edit payload now1 now2) = isoStamp now1"
| "stampedCommand (Delete i) = True"
| "stampedCommand (IncreaseProgress i now) = isoStamp now"
| "stampedCommand (Archive i now) = isoStamp now"
| "stampedCommand (Reopen i now) = isoStamp now"

text \<open>The payload the dialog's \<^verbatim>\<open>handleSave\<close> emits: \<^verbatim>\<open>id\<close>, \<^verbatim>\<open>name\<close>,
  \<^verbatim>\<open>description\<close>, \<^verbatim>\<open>type\<close>, \<^verbatim>\<open>target\<close> (and \<^verbatim>\<open>repeat\<close>, \<^verbatim>\<open>dateRange\<close>, which
  \<^verbatim>\<open>normalizeTask\<close> does not read).\<close>

definition formPayload :: "string field \<Rightarrow> string \<Rightarrow> string \<Rightarrow> string \<Rightarrow> rat \<Rightarrow> payload" where
  "formPayload i n d ty tg =
     \<lparr> p_id = i, p_name = Given n, p_description = Given d, p_type = Given ty,
       p_progress = Absent, p_target = Given tg, p_repeatRule = Absent,
       p_startDate = Absent, p_endDate = Absent, p_status = Absent,
       p_createdAt = Absent, p_updatedAt = Absent \<rparr>"

subsection \<open>Sample data\<close>

definition weekly :: task where
  "weekly = \<lparr> id_t = ''t2'', name = Some ''weekly meeting'', description = ''outline'',
              type_t = Some ''cycle'', progress = 1, target = 1, repeatRule = None,
              startDate = None, endDate = None, status = ''archived'',
              createdAt = ''2025-01-01T08:00:00.000Z'', updatedAt = ''2025-01-03T08:00:00.000Z'' \<rparr>"

definition checklist :: task where
  "checklist = \<lparr> id_t = ''t1'', name = Some ''release checklist'', description = ''final checks'',
              type_t = Some ''once'', progress = 2, target = 5, repeatRule = None,
              startDate = None, endDate = None, status = ''active'',
              createdAt = ''2025-01-01T08:00:00.000Z'', updatedAt = ''2025-01-02T08:00:00.000Z'' \<rparr>"

definition board :: store where
  "board = [weekly, checklist]"

text \<open>The task \<open>checklist\<close> once it has reached its target.\<close>

definition done_task :: task where
  "done_task = checklist\<lparr>progress := 5, status := ''completed''\<rparr>"

subsection \<open>The invariant of the data model\<close>

text \<open>The invariant of the data model, for a task and for the store.\<close>

definition inRange :: "task \<Rightarrow> bool" where
  "inRange t = (0 \<le> progress t \<and> progress t \<le> target t)"

definition bounded :: "store \<Rightarrow> bool" where
  "bounded tasks = list_all inRange tasks"

text \<open>A whole number of the range in which a double holds every whole number, so that
  adding one is exact (\<^verbatim>\<open>Number.isSafeInteger\<close>).\<close>

definition whole :: "rat \<Rightarrow> bool" where
  "whole x = (of_int \<lfloor>x\<rfloor> = x \<and> \<bar>x\<bar> \<le> 9007199254740991)"

definition wholeWithin :: "task \<Rightarrow> bool" where
  "wholeWithin t = (whole (progress t) \<and> whole (target t) \<and> progress t \<le> target t)"

text \<open>
  The commands that write a progress/target pair of their own making are \<open>Create\<close>,
  \<open>Edit\<close> and \<open>IncreaseProgress\<close>. \<open>keepsBounds\<close> says that the pair they are about to
  store is in range: for \<open>Create\<close> the payload's values with the defaults of
  \<^verbatim>\<open>normalizeTask\<close>, for \<open>Edit\<close> the payload's values where the key is present and the
  stored task's otherwise, for \<open>IncreaseProgress\<close> the progress plus one where the guard
  \<^verbatim>\<open>progress < target\<close> lets it write.
\<close>

fun keepsBounds :: "command \<Rightarrow> store \<Rightarrow> bool" where
  "keepsBounds (Create payload fresh now1 now2) tasks =
     (let pr = nullish (read_key (p_progress payload)) 0;
          tg = nullish (read_key (p_target payload)) 1
      in 0 \<le> pr \<and> pr \<le> tg)"
| "keepsBounds (Edit payload now1 now2) tasks =
     (case p_id payload of
        Given i \<Rightarrow>
          (case findTaskById i tasks of
             Some t \<Rightarrow>
               (let pr = nullish (spread (Some (progress t)) (p_progress payload)) 0;
                    tg = nullish (spread (Some (target t)) (p_target payload)) 1
                in 0 \<le> pr \<and> pr \<le> tg)
           | None \<Rightarrow> True)
      | _ \<Rightarrow> True)"
| "keepsBounds (IncreaseProgress i now) tasks =
     (case findTaskById i tasks of
        Some t \<Rightarrow> (if progress t < target t then progress t + 1 \<le> target t else True)
      | None \<Rightarrow> True)"
| "keepsBounds _ tasks = True"

fun keepsBoundsAll :: "command list \<Rightarrow> store \<Rightarrow> bool" where
  "keepsBoundsAll [] tasks = True"
| "keepsBoundsAll (c # cs) tasks = (keepsBounds c tasks \<and> keepsBoundsAll cs (fst (exec c tasks)))"

text \<open>A session: a task with target 10 is created and increased five times; then the
  dialog saves it with target 3.\<close>

definition session :: "command list" where
  "session =
     [Create (formPayload Nullish ''report'' ''draft'' ''once'' 10) ''t9''
        ''2025-02-01T08:00:00.000Z'' ''2025-02-01T08:00:00.000Z'',
      IncreaseProgress ''t9'' ''2025-02-01T08:01:00.000Z'',
      IncreaseProgress ''t9'' ''2025-02-01T08:02:00.000Z'',
      IncreaseProgress ''t9'' ''2025-02-01T08:03:00.000Z'',
      IncreaseProgress ''t9'' ''2025-02-01T08:04:00.000Z'',
      IncreaseProgress ''t9'' ''2025-02-01T08:05:00.000Z'']"

definition lowerTarget :: command where
  "lowerTarget = Edit (formPayload (Given ''t9'') ''report'' ''draft'' ''once'' 3)
                   ''2025-02-01T08:06:00.000Z'' ''2025-02-01T08:06:00.000Z''"

text \<open>An imported task that comes with a progress beyond its target, and a session on a
  task whose target is one and a half.\<close>

definition overfull :: command where
  "overfull = Create ((formPayload Nullish ''notes'' ''imported'' ''once'' 3)\<lparr>p_progress := Given 7\<rparr>)
                ''t8'' ''2025-02-02T08:00:00.000Z'' ''2025-02-02T08:00:00.000Z''"

definition halves :: "command list" where
  "halves =
     [Create (formPayload Nullish ''laps'' ''pool'' ''once'' (3 / 2)) ''t6''
        ''2025-02-03T08:00:00.000Z'' ''2025-02-03T08:00:00.000Z'',
      IncreaseProgress ''t6'' ''2025-02-03T08:01:00.000Z'',
      IncreaseProgress ''t6'' ''2025-02-03T08:02:00.000Z'']"

text \<open>Payloads of the dialog for the task \<open>checklist\<close>: one lowers the target, one changes
  the kind. Two more tasks: an archived one below its target, and a completed cycle.\<close>

definition shrink :: payload where
  "shrink = formPayload (Given ''t1'') ''release checklist'' ''final checks'' ''once'' 1"

definition retype :: payload where
  "retype = formPayload (Given ''t1'') ''release checklist'' ''final checks'' ''cycle'' 5"

definition shelved :: task where
  "shelved = checklist\<lparr>status := ''archived''\<rparr>"

definition finished :: task where
  "finished = weekly\<lparr>status := ''completed''\<rparr>"

subsection \<open>The tasks the card is given\<close>

text \<open>The card is given a stored task, whose \<^verbatim>\<open>target\<close> is a number.\<close>

definition cardPercentage :: "(rat \<Rightarrow> rat) \<Rightarrow> task \<Rightarrow> int" where
  "cardPercentage fl t = progressPercentage fl (progress t) (Some (target t))"

text \<open>
  What the panel sends: the payload of the dialog has no \<^verbatim>\<open>progress\<close> key, and its
  \<^verbatim>\<open>target\<close> comes from a number input with minimum 1 behind a validator that
  rejects values that are not positive.
\<close>

definition dialogPayload :: "payload \<Rightarrow> bool" where
  "dialogPayload payload =
     (p_progress payload = Absent \<and> (case p_target payload of Given tg \<Rightarrow> 1 \<le> tg | _ \<Rightarrow> False))"

fun fromPanel :: "command \<Rightarrow> bool" where
  "fromPanel (Create payload fresh now1 now2) = dialogPayload payload"
| "fromPanel (Edit payload now1 now2) = dialogPayload payload"
| "fromPanel _ = True"

definition counts :: "task \<Rightarrow> bool" where
  "counts t = (0 \<le> progress t \<and> 1 \<le> target t)"

subsection \<open>The delegating mode\<close>

text \<open>
  \<^verbatim>\<open>refreshTasks\<close> in the delegating mode, which every command there ends with. The
  promise of \<^verbatim>\<open>invoke("list_tasks")\<close> is rejected, or resolves to something that is
  not an array, or to an array of objects; each object comes with the two readings of
  the clock \<^verbatim>\<open>normalizeTask\<close> may need. A rejection is caught and leaves the array alone.
\<close>

datatype 'a promise = Rejected | Resolved 'a

definition refreshTasks :: "(raw \<times> string \<times> string) list option promise \<Rightarrow> store \<Rightarrow> store" where
  "refreshTasks response tasks =
     (case response of
        Rejected \<Rightarrow> tasks
      | Resolved None \<Rightarrow> sortTasks []
      | Resolved (Some objs) \<Rightarrow>
          sortTasks (map (\<lambda>(obj, now1, now2). normalizeTask obj now1 now2) objs))"

text \<open>A reply of two objects, the second with most keys missing; and what it takes for
  the tasks of a reply all to get a stamp for \<^verbatim>\<open>updatedAt\<close>.\<close>

definition listed :: "(raw \<times> string \<times> string) list option promise" where
  "listed = Resolved (Some
     [(\<lparr> r_id = ''n1'', r_name = Some ''inbox'', r_description = None, r_type = Some ''once'',
          r_progress = Some 0, r_target = Some 4, r_repeatRule = None, r_startDate = None,
          r_endDate = None, r_status = Some ''active'',
          r_createdAt = Some ''2025-03-01T08:00:00.000Z'',
          r_updatedAt = Some ''2025-03-01T09:00:00.000Z'' \<rparr>,
       ''2025-03-02T08:00:00.000Z'', ''2025-03-02T08:00:00.000Z''),
      (\<lparr> r_id = ''n2'', r_name = Some ''review'', r_description = None, r_type = Some ''cycle'',
          r_progress = None, r_target = None, r_repeatRule = Some ''weekly'', r_startDate = None,
          r_endDate = None, r_status = None, r_createdAt = None, r_updatedAt = None \<rparr>,
       ''2025-03-02T08:00:00.000Z'', ''2025-03-02T08:00:00.001Z'')])"

definition stampedReply :: "(raw \<times> string \<times> string) list option promise \<Rightarrow> bool" where
  "stampedReply response =
     (case response of
        Resolved (Some objs) \<Rightarrow>
          list_all (\<lambda>(obj, now1, now2). isoStamp (nullish (r_updatedAt obj) now2)) objs
      | _ \<Rightarrow> True)"

section \<open>Auxiliary facts\<close>

subsection \<open>Searching and sorting\<close>

lemma findIndex_None: "findIndex P xs = None \<longleftrightarrow> (\<forall>x \<in> set xs. \<not> P x)"
  by (induction xs) auto

lemma findIndex_Some:
  "findIndex P xs = Some k \<Longrightarrow> k < length xs \<and> P (xs ! k) \<and> List.find P xs = Some (xs ! k)"
  by (induction xs arbitrary: k) (auto split: if_splits)

lemma find_findIndex:
  "List.find P xs = Some x \<Longrightarrow> \<exists>k. findIndex P xs = Some k \<and> k < length xs \<and> xs ! k = x"
  by (induction xs) (auto split: if_splits)

lemma find_None_findIndex: "List.find P xs = None \<Longrightarrow> findIndex P xs = None"
  by (simp add: findIndex_None find_None_iff)

lemma mset_insertBy: "mset (insertBy cmp x ys) = add_mset x (mset ys)"
  by (induction ys) auto

lemma mset_sortBy: "mset (sortBy cmp xs) = mset xs"
  by (induction xs) (auto simp: sortBy_def mset_insertBy)

lemma mset_sortTasks: "mset (sortTasks tasks) = mset tasks"
  by (simp add: sortTasks_def mset_sortBy)

lemma set_sortTasks: "set (sortTasks tasks) = set tasks"
  using mset_sortTasks by (metis set_mset_mset)

lemma length_sortTasks: "length (sortTasks tasks) = length tasks"
  using mset_sortTasks by (metis size_mset)

text \<open>Where both tasks carry stamps the comparator is the order of the strings.\<close>

lemma compareTasks_le:
  "isoStamp (updatedAt a) \<Longrightarrow> isoStamp (updatedAt b) \<Longrightarrow>
   compareTasks a b \<le> 0 \<longleftrightarrow> updatedAt b \<le> updatedAt a"
  by (auto simp: compareTasks_def localeCompare_def)

lemma stamped_iff: "stamped tasks \<longleftrightarrow> (\<forall>t \<in> set tasks. isoStamp (updatedAt t))"
  by (simp add: stamped_def list_all_iff)

lemma stamped_sortTasks: "stamped (sortTasks tasks) \<longleftrightarrow> stamped tasks"
  by (simp add: stamped_iff set_sortTasks)

lemma sortTasks_Cons: "sortTasks (t # ts) = insertBy compareTasks t (sortTasks ts)"
  by (simp add: sortTasks_def sortBy_def)

lemma descending_insertBy:
  "stamped (x # ys) \<Longrightarrow> descending ys \<Longrightarrow> descending (insertBy compareTasks x ys)"
proof (induction ys)
  case Nil
  then show ?case by (simp add: descending_def)
next
  case (Cons y ys)
  have "set (insertBy compareTasks x ys) = insert x (set ys)"
    using mset_insertBy [of compareTasks x ys] by (metis set_mset_mset set_mset_add_mset_insert)
  with Cons show ?case
    by (auto simp: descending_def stamped_iff compareTasks_le)
qed

lemma descending_sortTasks: "stamped tasks \<Longrightarrow> descending (sortTasks tasks)"
proof (induction tasks)
  case Nil
  show ?case by (simp add: sortTasks_def sortBy_def descending_def)
next
  case (Cons t ts)
  then have "stamped (t # sortTasks ts)" "descending (sortTasks ts)"
    by (simp_all add: stamped_iff set_sortTasks)
  then show ?case
    unfolding sortTasks_Cons by (rule descending_insertBy)
qed

lemma filter_insertBy:
  "stamped (x # ys) \<Longrightarrow>
   filter (\<lambda>t. updatedAt t = k) (insertBy compareTasks x ys) = filter (\<lambda>t. updatedAt t = k) (x # ys)"
  by (induction ys) (auto simp: stamped_iff compareTasks_le)

lemma filter_sortTasks:
  "stamped tasks \<Longrightarrow>
   filter (\<lambda>t. updatedAt t = k) (sortTasks tasks) = filter (\<lambda>t. updatedAt t = k) tasks"
proof (induction tasks)
  case Nil
  show ?case by (simp add: sortTasks_def sortBy_def)
next
  case (Cons t ts)
  then have "stamped (t # sortTasks ts)"
    by (simp add: stamped_iff set_sortTasks)
  then have "filter (\<lambda>t. updatedAt t = k) (insertBy compareTasks t (sortTasks ts))
      = filter (\<lambda>t. updatedAt t = k) (t # sortTasks ts)"
    by (rule filter_insertBy)
  with Cons show ?case
    by (simp add: sortTasks_Cons stamped_iff)
qed

lemma descending_filter: "descending tasks \<Longrightarrow> descending (filter P tasks)"
  by (simp add: descending_def sorted_wrt_filter)

lemma stamped_filter: "stamped tasks \<Longrightarrow> stamped (filter P tasks)"
  by (simp add: stamped_iff)

lemma sortTasks_descending_id: "stamped tasks \<Longrightarrow> descending tasks \<Longrightarrow> sortTasks tasks = tasks"
proof (induction tasks)
  case Nil
  show ?case by (simp add: sortTasks_def sortBy_def)
next
  case (Cons t ts)
  then have "sortTasks ts = ts"
    by (simp add: stamped_iff descending_def)
  with Cons.prems show ?case
    by (cases ts) (auto simp: sortTasks_Cons descending_def stamped_iff compareTasks_le)
qed

lemma distinct_ids_sortTasks:
  "distinct (map id_t (sortTasks tasks)) \<longleftrightarrow> distinct (map id_t tasks)"
proof -
  have "mset (map id_t (sortTasks tasks)) = mset (map id_t tasks)"
    using mset_sortTasks [of tasks] by (metis mset_map)
  then show ?thesis by (metis mset_eq_imp_distinct_iff)
qed

lemma find_distinct_ids:
  "distinct (map id_t tasks) \<Longrightarrow> t \<in> set tasks \<Longrightarrow> findTaskById (id_t t) tasks = Some t"
  unfolding findTaskById_def by (induction tasks) (auto simp: image_iff)

lemma findTaskById_sortTasks:
  assumes "distinct (map id_t tasks)"
  shows "findTaskById i (sortTasks tasks) = findTaskById i tasks"
proof (cases "findTaskById i tasks")
  case None
  then have "\<forall>x \<in> set tasks. id_t x \<noteq> i"
    by (auto simp: findTaskById_def find_None_iff)
  then have "findTaskById i (sortTasks tasks) = None"
    by (simp add: findTaskById_def find_None_iff set_sortTasks)
  with None show ?thesis by simp
next
  case (Some t)
  then have "t \<in> set tasks" "id_t t = i"
    by (auto simp: findTaskById_def find_Some_iff)
  then show ?thesis
    using find_distinct_ids [of "sortTasks tasks" t] assms Some
    by (simp add: distinct_ids_sortTasks set_sortTasks)
qed

subsection \<open>Writing to the found task\<close>

lemma find_update_other:
  "k < length xs \<Longrightarrow> \<not> P (xs ! k) \<Longrightarrow> \<not> P y \<Longrightarrow> List.find P (xs[k := y]) = List.find P xs"
  by (induction xs arbitrary: k) (auto split: nat.splits)

lemma ids_update:
  assumes "findIndex (\<lambda>item. id_t item = i) tasks = Some k" and "id_t t' = i"
  shows "map id_t (tasks[k := t']) = map id_t tasks"
proof -
  from assms(1) have "k < length tasks" "id_t (tasks ! k) = i"
    using findIndex_Some [of "\<lambda>item. id_t item = i" tasks k] by auto
  with assms(2) show ?thesis
    by (simp add: map_update list_update_same_conv)
qed

lemma stored_after:
  assumes "distinct (map id_t tasks)"
    and "findIndex (\<lambda>item. id_t item = i) tasks = Some k" and "id_t t' = i"
  shows "findTaskById i (sortTasks (tasks[k := t'])) = Some t'"
proof -
  from assms(2) have k: "k < length tasks"
    using findIndex_Some [of "\<lambda>item. id_t item = i" tasks k] by auto
  have d: "distinct (map id_t (tasks[k := t']))"
    using assms by (simp add: ids_update)
  have "t' \<in> set (tasks[k := t'])"
    using k by (simp add: set_update_memI)
  then have "findTaskById (id_t t') (tasks[k := t']) = Some t'"
    using d by (rule find_distinct_ids [rotated])
  then show ?thesis
    using d assms(3) by (simp add: findTaskById_sortTasks)
qed

lemma others_after:
  assumes "distinct (map id_t tasks)"
    and "findIndex (\<lambda>item. id_t item = i) tasks = Some k" and "id_t t' = i" and "j \<noteq> i"
  shows "findTaskById j (sortTasks (tasks[k := t'])) = findTaskById j tasks"
proof -
  from assms(2) have k: "k < length tasks" "id_t (tasks ! k) = i"
    using findIndex_Some [of "\<lambda>item. id_t item = i" tasks k] by auto
  have d: "distinct (map id_t (tasks[k := t']))"
    using assms by (simp add: ids_update)
  have "findTaskById j (tasks[k := t']) = findTaskById j tasks"
    unfolding findTaskById_def using k assms(3,4) by (intro find_update_other) auto
  then show ?thesis
    using d by (simp add: findTaskById_sortTasks)
qed

lemma found_index:
  assumes "findTaskById i tasks = Some t"
  obtains k where "findIndex (\<lambda>item. id_t item = i) tasks = Some k" "tasks ! k = t" "k < length tasks" "id_t t = i"
proof -
  from assms obtain k where "findIndex (\<lambda>item. id_t item = i) tasks = Some k" "k < length tasks" "tasks ! k = t"
    unfolding findTaskById_def using find_findIndex by fastforce
  moreover from assms have "id_t t = i"
    by (auto simp: findTaskById_def find_Some_iff)
  ultimately show ?thesis using that by blast
qed

lemma reopenTask_found:
  assumes "findTaskById i tasks = Some t"
  obtains k where "k < length tasks" "tasks ! k = t"
    "findIndex (\<lambda>item. id_t item = i) tasks = Some k"
    "reopenTask i now tasks =
       (sortTasks (tasks[k := t\<lparr>status := ''active'',
                                progress := (if type_t t = Some ''cycle'' then 0 else progress t),
                                updatedAt := now\<rparr>]),
        Task (t\<lparr>status := ''active'',
                 progress := (if type_t t = Some ''cycle'' then 0 else progress t),
                 updatedAt := now\<rparr>))"
proof -
  from assms obtain k where k: "findIndex (\<lambda>item. id_t item = i) tasks = Some k" "tasks ! k = t" "k < length tasks"
    by (rule found_index)
  then have "reopenTask i now tasks =
       (sortTasks (tasks[k := t\<lparr>status := ''active'',
                                progress := (if type_t t = Some ''cycle'' then 0 else progress t),
                                updatedAt := now\<rparr>]),
        Task (t\<lparr>status := ''active'',
                 progress := (if type_t t = Some ''cycle'' then 0 else progress t),
                 updatedAt := now\<rparr>))"
    by (simp add: reopenTask_def Let_def)
  with k show ?thesis using that by blast
qed

subsection \<open>What the writing commands compute\<close>

lemma increaseProgress_found:
  assumes "findTaskById i tasks = Some t"
  obtains k where "k < length tasks" "tasks ! k = t"
    "findIndex (\<lambda>item. id_t item = i) tasks = Some k"
    "increaseProgress i now tasks =
       (if progress t < target t
        then (sortTasks (tasks[k := t\<lparr>progress := progress t + 1,
                   status := (if target t \<le> progress t + 1 \<and> status t \<noteq> ''archived''
                              then ''completed'' else status t),
                   updatedAt := now\<rparr>]),
              Task (t\<lparr>progress := progress t + 1,
                   status := (if target t \<le> progress t + 1 \<and> status t \<noteq> ''archived''
                              then ''completed'' else status t),
                   updatedAt := now\<rparr>))
        else (tasks, Task t))"
proof -
  from assms obtain k where k: "findIndex (\<lambda>item. id_t item = i) tasks = Some k" "tasks ! k = t" "k < length tasks"
    by (rule found_index)
  then have "increaseProgress i now tasks =
       (if progress t < target t
        then (sortTasks (tasks[k := t\<lparr>progress := progress t + 1,
                   status := (if target t \<le> progress t + 1 \<and> status t \<noteq> ''archived''
                              then ''completed'' else status t),
                   updatedAt := now\<rparr>]),
              Task (t\<lparr>progress := progress t + 1,
                   status := (if target t \<le> progress t + 1 \<and> status t \<noteq> ''archived''
                              then ''completed'' else status t),
                   updatedAt := now\<rparr>))
        else (tasks, Task t))"
    by (simp add: increaseProgress_def Let_def)
  with k show ?thesis using that by blast
qed

lemma archiveTask_found:
  assumes "findTaskById i tasks = Some t"
  obtains k where "k < length tasks" "tasks ! k = t"
    "findIndex (\<lambda>item. id_t item = i) tasks = Some k"
    "archiveTask i now tasks =
       (sortTasks (tasks[k := t\<lparr>status := ''archived'', updatedAt := now\<rparr>]),
        Task (t\<lparr>status := ''archived'', updatedAt := now\<rparr>))"
proof -
  from assms obtain k where k: "findIndex (\<lambda>item. id_t item = i) tasks = Some k" "tasks ! k = t" "k < length tasks"
    by (rule found_index)
  then have "archiveTask i now tasks =
       (sortTasks (tasks[k := t\<lparr>status := ''archived'', updatedAt := now\<rparr>]),
        Task (t\<lparr>status := ''archived'', updatedAt := now\<rparr>))"
    by (simp add: archiveTask_def Let_def)
  with k show ?thesis using that by blast
qed

lemma increaseProgress_at_target:
  assumes "findTaskById i tasks = Some t" and "progress t = target t"
  shows "increaseProgress i now tasks = (tasks, Task t)"
proof -
  from assms(1) obtain k where "increaseProgress i now tasks =
       (if progress t < target t
        then (sortTasks (tasks[k := t\<lparr>progress := progress t + 1,
                   status := (if target t \<le> progress t + 1 \<and> status t \<noteq> ''archived''
                              then ''completed'' else status t),
                   updatedAt := now\<rparr>]),
              Task (t\<lparr>progress := progress t + 1,
                   status := (if target t \<le> progress t + 1 \<and> status t \<noteq> ''archived''
                              then ''completed'' else status t),
                   updatedAt := now\<rparr>))
        else (tasks, Task t))"
    by (rule increaseProgress_found)
  with assms(2) show ?thesis by simp
qed

lemma all_written:
  assumes "list_all P tasks" and "P t'"
  shows "list_all P (sortTasks (tasks[k := t']))"
proof -
  have "set (tasks[k := t']) \<subseteq> insert t' (set tasks)"
    by (rule set_update_subset_insert)
  with assms show ?thesis
    by (auto simp: list_all_iff set_sortTasks)
qed

lemma whole_Ints: "whole x \<longleftrightarrow> x \<in> \<int> \<and> \<bar>x\<bar> \<le> 9007199254740991"
  by (auto simp: whole_def Ints_def)

lemma whole_step:
  assumes "whole a" and "whole b" and "a < b"
  shows "a + 1 \<le> b" and "whole (a + 1)"
proof -
  from assms(1) obtain m where a: "a = of_int m"
    by (auto simp: whole_Ints elim: Ints_cases)
  from assms(2) obtain n where b: "b = of_int n"
    by (auto simp: whole_Ints elim: Ints_cases)
  from assms(3) have "m < n"
    by (simp add: a b)
  then have "m + 1 \<le> n" by simp
  then have "(of_int (m + 1) :: rat) \<le> of_int n"
    by (simp only: of_int_le_iff)
  then show le: "a + 1 \<le> b" by (simp add: a b)
  from assms(1) have "a + 1 \<in> \<int>"
    by (simp add: whole_Ints)
  moreover from assms(1,2) le have "\<bar>a + 1\<bar> \<le> 9007199254740991"
    by (simp add: whole_Ints abs_le_iff)
  ultimately show "whole (a + 1)"
    by (simp add: whole_Ints)
qed

lemma increaseProgress_wholeWithin:
  assumes "list_all wholeWithin tasks"
  shows "list_all wholeWithin (fst (increaseProgress i now tasks))"
proof (cases "findTaskById i tasks")
  case None
  then have "findIndex (\<lambda>item. id_t item = i) tasks = None"
    unfolding findTaskById_def by (rule find_None_findIndex)
  with assms show ?thesis by (simp add: increaseProgress_def)
next
  case (Some t)
  let ?t' = "t\<lparr>progress := progress t + 1,
                 status := (if target t \<le> progress t + 1 \<and> status t \<noteq> ''archived''
                            then ''completed'' else status t),
                 updatedAt := now\<rparr>"
  from Some obtain k where k: "k < length tasks" "tasks ! k = t"
    and eq: "increaseProgress i now tasks =
       (if progress t < target t then (sortTasks (tasks[k := ?t']), Task ?t') else (tasks, Task t))"
    by (rule increaseProgress_found)
  from k have "t \<in> set tasks" by auto
  with assms have w: "wholeWithin t" by (simp add: list_all_iff)
  show ?thesis
  proof (cases "progress t < target t")
    case True
    with w have "progress t + 1 \<le> target t" "whole (progress t + 1)"
      by (auto simp: wholeWithin_def intro: whole_step)
    with w have "wholeWithin ?t'"
      by (simp add: wholeWithin_def)
    with assms have "list_all wholeWithin (sortTasks (tasks[k := ?t']))"
      by (rule all_written)
    with True eq show ?thesis by simp
  next
    case False
    with eq assms show ?thesis by simp
  qed
qed

lemma increaseMany_wholeWithin:
  "list_all wholeWithin tasks \<Longrightarrow> list_all wholeWithin (fst (increaseMany i nows tasks))"
proof (induction nows arbitrary: tasks)
  case Nil
  then show ?case by simp
next
  case (Cons now nows)
  from Cons.prems have "list_all wholeWithin (fst (increaseProgress i now tasks))"
    by (rule increaseProgress_wholeWithin)
  then have "list_all wholeWithin (fst (increaseMany i nows (fst (increaseProgress i now tasks))))"
    by (rule Cons.IH)
  then show ?case by (simp add: split_beta)
qed

subsection \<open>Order, and the progress bar\<close>

lemma ordered_written:
  assumes "stamped tasks" and "isoStamp (updatedAt t')"
  shows "descending (sortTasks (tasks[k := t'])) \<and> stamped (sortTasks (tasks[k := t']))"
proof -
  from assms have "stamped (sortTasks (tasks[k := t']))"
    unfolding stamped_def by (rule all_written)
  then show ?thesis
    by (simp add: stamped_sortTasks descending_sortTasks)
qed

lemma descending_exec:
  assumes "stamped tasks" and "descending tasks" and "stampedCommand c"
  shows "descending (fst (exec c tasks)) \<and> stamped (fst (exec c tasks))"
proof (cases c)
  case (Create payload fresh now1 now2)
  let ?new = "normalizeTask
      \<lparr>r_id = fresh, r_name = read_key (p_name payload),
         r_description = read_key (p_description payload), r_type = read_key (p_type payload),
         r_progress = read_key (p_progress payload), r_target = read_key (p_target payload),
         r_repeatRule = read_key (p_repeatRule payload), r_startDate = read_key (p_startDate payload),
         r_endDate = read_key (p_endDate payload), r_status = read_key (p_status payload),
         r_createdAt = read_key (p_createdAt payload),
         r_updatedAt = read_key (p_updatedAt payload)\<rparr> now1 now2"
  from assms(3) Create have "isoStamp (updatedAt ?new)"
    by (simp add: normalizeTask_def)
  with assms(1) have "stamped (?new # tasks)"
    by (simp add: stamped_iff)
  then have "descending (sortTasks (?new # tasks)) \<and> stamped (sortTasks (?new # tasks))"
    by (simp add: stamped_sortTasks descending_sortTasks)
  with Create show ?thesis
    by (simp add: addTask_def Let_def)
next
  case (Edit payload now1 now2)
  from assms(3) Edit have "\<And>t i. isoStamp (updatedAt (normalizeTask (spreadTask t payload i now1) now2 now1))"
    by (simp add: normalizeTask_def spreadTask_def nullish_def)
  with assms(1) have "\<And>t i k. descending (sortTasks (tasks[k := normalizeTask (spreadTask t payload i now1) now2 now1]))
      \<and> stamped (sortTasks (tasks[k := normalizeTask (spreadTask t payload i now1) now2 now1]))"
    by (intro ordered_written)
  with Edit assms(1,2) show ?thesis
    by (simp add: updateTask_def Let_def split: field.splits option.splits)
next
  case (Delete i)
  with assms(1,2) show ?thesis
    by (simp add: deleteTask_def descending_filter stamped_filter)
next
  case (IncreaseProgress i now)
  from assms(1,3) IncreaseProgress
  have "\<And>t k. updatedAt t = now \<Longrightarrow> descending (sortTasks (tasks[k := t])) \<and> stamped (sortTasks (tasks[k := t]))"
    by (intro ordered_written) simp_all
  with IncreaseProgress assms(1,2) show ?thesis
    by (simp add: increaseProgress_def Let_def split: option.splits)
next
  case (Archive i now)
  from assms(1,3) Archive
  have "\<And>t k. updatedAt t = now \<Longrightarrow> descending (sortTasks (tasks[k := t])) \<and> stamped (sortTasks (tasks[k := t]))"
    by (intro ordered_written) simp_all
  with Archive assms(1,2) show ?thesis
    by (simp add: archiveTask_def Let_def split: option.splits)
next
  case (Reopen i now)
  from assms(1,3) Reopen
  have "\<And>t k. updatedAt t = now \<Longrightarrow> descending (sortTasks (tasks[k := t])) \<and> stamped (sortTasks (tasks[k := t]))"
    by (intro ordered_written) simp_all
  with Reopen assms(1,2) show ?thesis
    by (simp add: reopenTask_def Let_def split: option.splits)
qed

lemma descending_run:
  "stamped tasks \<Longrightarrow> descending tasks \<Longrightarrow> list_all stampedCommand cmds \<Longrightarrow>
   descending (run cmds tasks) \<and> stamped (run cmds tasks)"
proof (induction cmds arbitrary: tasks)
  case Nil
  then show ?case by simp
next
  case (Cons c cs)
  from Cons.prems have "descending (fst (exec c tasks)) \<and> stamped (fst (exec c tasks))"
    by (intro descending_exec) simp_all
  moreover from Cons.prems have "list_all stampedCommand cs" by simp
  ultimately have "descending (run cs (fst (exec c tasks))) \<and> stamped (run cs (fst (exec c tasks)))"
    by (intro Cons.IH) simp_all
  then show ?case by simp
qed

lemma descending_refreshTasks:
  assumes "stamped tasks" and "descending tasks" and "stampedReply response"
  shows "descending (refreshTasks response tasks) \<and> stamped (refreshTasks response tasks)"
proof (cases response)
  case Rejected
  with assms show ?thesis by (simp add: refreshTasks_def)
next
  case (Resolved r)
  show ?thesis
  proof (cases r)
    case None
    with Resolved show ?thesis
      by (simp add: refreshTasks_def sortTasks_def sortBy_def descending_def stamped_def)
  next
    case (Some objs)
    with assms(3) Resolved
    have "stamped (map (\<lambda>(obj, now1, now2). normalizeTask obj now1 now2) objs)"
      by (auto simp: stampedReply_def stamped_def list_all_iff normalizeTask_def)
    then have "descending (sortTasks (map (\<lambda>(obj, now1, now2). normalizeTask obj now1 now2) objs))
        \<and> stamped (sortTasks (map (\<lambda>(obj, now1, now2). normalizeTask obj now1 now2) objs))"
      by (simp add: stamped_sortTasks descending_sortTasks)
    with Some Resolved show ?thesis by (simp add: refreshTasks_def)
  qed
qed

lemma js_round_nonneg: "0 \<le> x \<Longrightarrow> 0 \<le> js_round x"
  by (simp add: js_round_def)

lemma divisor_pos: "(case tgt of None \<Rightarrow> True | Some t \<Rightarrow> 0 \<le> t) \<Longrightarrow> 0 < divisor tgt"
  by (auto simp: divisor_def split: option.splits)

subsection \<open>Editing\<close>

lemma updateTask_found:
  assumes "findTaskById i tasks = Some t" and "p_id payload = Given i"
  obtains k where "k < length tasks" "tasks ! k = t"
    "findIndex (\<lambda>item. id_t item = i) tasks = Some k"
    "updateTask payload now1 now2 tasks =
       (sortTasks (tasks[k := normalizeTask (spreadTask t payload i now1) now2 now1]),
        elemAt (sortTasks (tasks[k := normalizeTask (spreadTask t payload i now1) now2 now1])) k)"
proof -
  from assms(1) obtain k where k: "findIndex (\<lambda>item. id_t item = i) tasks = Some k" "tasks ! k = t" "k < length tasks"
    by (rule found_index)
  then have "updateTask payload now1 now2 tasks =
       (sortTasks (tasks[k := normalizeTask (spreadTask t payload i now1) now2 now1]),
        elemAt (sortTasks (tasks[k := normalizeTask (spreadTask t payload i now1) now2 now1])) k)"
    using assms(2) by (simp add: updateTask_def Let_def)
  with k show ?thesis using that by blast
qed

lemma updateTask_missing:
  assumes "findTaskById i tasks = None" and "p_id payload = Given i"
  shows "updateTask payload now1 now2 tasks = (tasks, Null)"
proof -
  from assms(1) have "findIndex (\<lambda>item. id_t item = i) tasks = None"
    unfolding findTaskById_def by (rule find_None_findIndex)
  with assms(2) show ?thesis by (simp add: updateTask_def)
qed

lemma updateTask_no_id:
  "p_id payload = Absent \<or> p_id payload = Nullish \<Longrightarrow> updateTask payload now1 now2 tasks = (tasks, Null)"
  by (auto simp: updateTask_def)

lemma edited_fields:
  "id_t (normalizeTask (spreadTask t payload i now1) now2 now1) = i"
  "progress (normalizeTask (spreadTask t payload i now1) now2 now1)
     = nullish (spread (Some (progress t)) (p_progress payload)) 0"
  "target (normalizeTask (spreadTask t payload i now1) now2 now1)
     = nullish (spread (Some (target t)) (p_target payload)) 1"
  "status (normalizeTask (spreadTask t payload i now1) now2 now1)
     = nullish (spread (Some (status t)) (p_status payload)) ''active''"
  "type_t (normalizeTask (spreadTask t payload i now1) now2 now1)
     = spread (type_t t) (p_type payload)"
  "updatedAt (normalizeTask (spreadTask t payload i now1) now2 now1) = now1"
  by (simp_all add: normalizeTask_def spreadTask_def nullish_def)

lemma updateTask_stored:
  assumes "findTaskById i tasks = Some t" and "distinct (map id_t tasks)" and "p_id payload = Given i"
  shows "findTaskById i (fst (updateTask payload now1 now2 tasks))
           = Some (normalizeTask (spreadTask t payload i now1) now2 now1)"
    and "\<exists>r. snd (updateTask payload now1 now2 tasks) = Task r"
proof -
  let ?t' = "normalizeTask (spreadTask t payload i now1) now2 now1"
  from assms(1,3) obtain k where k: "k < length tasks"
    "findIndex (\<lambda>item. id_t item = i) tasks = Some k"
    "updateTask payload now1 now2 tasks = (sortTasks (tasks[k := ?t']), elemAt (sortTasks (tasks[k := ?t'])) k)"
    by (rule updateTask_found)
  have "id_t ?t' = i" by (rule edited_fields)
  with assms(2) k(2) have "findTaskById i (sortTasks (tasks[k := ?t'])) = Some ?t'"
    by (rule stored_after)
  with k(3) show "findTaskById i (fst (updateTask payload now1 now2 tasks)) = Some ?t'"
    by simp
  from k(1) have "k < length (sortTasks (tasks[k := ?t']))"
    by (simp add: length_sortTasks)
  with k(3) show "\<exists>r. snd (updateTask payload now1 now2 tasks) = Task r"
    by (simp add: elemAt_def)
qed

lemma filter_absent:
  "findTaskById i tasks = None \<Longrightarrow> filter (\<lambda>task. id_t task \<noteq> i) tasks = tasks"
  by (simp add: findTaskById_def find_None_iff filter_id_conv)

subsection \<open>The bounds of progress\<close>

lemma bounded_iff: "bounded tasks \<longleftrightarrow> (\<forall>t \<in> set tasks. inRange t)"
  by (simp add: bounded_def list_all_iff)

lemma bounded_written:
  assumes "bounded tasks" and "inRange t'"
  shows "bounded (sortTasks (tasks[k := t']))"
proof -
  have "set (tasks[k := t']) \<subseteq> insert t' (set tasks)"
    by (rule set_update_subset_insert)
  with assms show ?thesis
    by (auto simp: bounded_iff set_sortTasks)
qed

lemma bounded_exec:
  assumes "bounded tasks" and "keepsBounds c tasks"
  shows "bounded (fst (exec c tasks))"
proof (cases c)
  case (Create payload fresh now1 now2)
  with assms show ?thesis
    by (simp add: addTask_def Let_def bounded_iff set_sortTasks inRange_def normalizeTask_def)
next
  case (Edit payload now1 now2)
  show ?thesis
  proof (cases "p_id payload")
    case (Given i)
    show ?thesis
    proof (cases "findTaskById i tasks")
      case None
      with Given Edit assms(1) show ?thesis
        by (simp add: updateTask_missing)
    next
      case (Some t)
      from Some Given obtain k where
        eq: "updateTask payload now1 now2 tasks =
          (sortTasks (tasks[k := normalizeTask (spreadTask t payload i now1) now2 now1]),
           elemAt (sortTasks (tasks[k := normalizeTask (spreadTask t payload i now1) now2 now1])) k)"
        by (rule updateTask_found)
      from assms(2) Edit Given Some
      have "inRange (normalizeTask (spreadTask t payload i now1) now2 now1)"
        by (simp add: inRange_def edited_fields Let_def)
      with assms(1) have "bounded (sortTasks (tasks[k := normalizeTask (spreadTask t payload i now1) now2 now1]))"
        by (rule bounded_written)
      with eq Edit show ?thesis by simp
    qed
  qed (use Edit assms(1) in \<open>simp_all add: updateTask_no_id\<close>)
next
  case (Delete i)
  with assms(1) show ?thesis
    by (simp add: deleteTask_def bounded_iff)
next
  case (IncreaseProgress i now)
  show ?thesis
  proof (cases "findTaskById i tasks")
    case None
    then have "findIndex (\<lambda>item. id_t item = i) tasks = None"
      unfolding findTaskById_def by (rule find_None_findIndex)
    with IncreaseProgress assms(1) show ?thesis by (simp add: increaseProgress_def)
  next
    case (Some t)
    let ?t' = "t\<lparr>progress := progress t + 1,
                   status := (if target t \<le> progress t + 1 \<and> status t \<noteq> ''archived''
                              then ''completed'' else status t),
                   updatedAt := now\<rparr>"
    from Some obtain k where k: "k < length tasks" "tasks ! k = t"
      and eq: "increaseProgress i now tasks =
         (if progress t < target t then (sortTasks (tasks[k := ?t']), Task ?t') else (tasks, Task t))"
      by (rule increaseProgress_found)
    from k have "t \<in> set tasks" by auto
    with assms(1) have r: "inRange t" by (simp add: bounded_iff)
    show ?thesis
    proof (cases "progress t < target t")
      case True
      with assms(2) IncreaseProgress Some r have "inRange ?t'"
        by (simp add: inRange_def)
      with assms(1) have "bounded (sortTasks (tasks[k := ?t']))" by (rule bounded_written)
      with True eq IncreaseProgress show ?thesis by simp
    next
      case False
      with eq IncreaseProgress assms(1) show ?thesis by simp
    qed
  qed
next
  case (Archive i now)
  show ?thesis
  proof (cases "findIndex (\<lambda>item. id_t item = i) tasks")
    case None
    with Archive assms(1) show ?thesis by (simp add: archiveTask_def)
  next
    case (Some k)
    then have "tasks ! k \<in> set tasks"
      using findIndex_Some [of "\<lambda>item. id_t item = i" tasks k] by simp
    with assms(1) have "inRange (tasks ! k)" by (simp add: bounded_iff)
    then have "inRange ((tasks ! k)\<lparr>status := ''archived'', updatedAt := now\<rparr>)"
      by (simp add: inRange_def)
    with assms(1) have "bounded (sortTasks (tasks[k := (tasks ! k)\<lparr>status := ''archived'', updatedAt := now\<rparr>]))"
      by (rule bounded_written)
    with Some Archive show ?thesis by (simp add: archiveTask_def Let_def)
  qed
next
  case (Reopen i now)
  show ?thesis
  proof (cases "findIndex (\<lambda>item. id_t item = i) tasks")
    case None
    with Reopen assms(1) show ?thesis by (simp add: reopenTask_def)
  next
    case (Some k)
    let ?t' = "(if type_t (tasks ! k) = Some ''cycle''
                then (tasks ! k)\<lparr>status := ''active'', progress := 0\<rparr>
                else (tasks ! k)\<lparr>status := ''active''\<rparr>)\<lparr>updatedAt := now\<rparr>"
    from Some have "tasks ! k \<in> set tasks"
      using findIndex_Some [of "\<lambda>item. id_t item = i" tasks k] by simp
    with assms(1) have "inRange (tasks ! k)" by (simp add: bounded_iff)
    then have "inRange ?t'" by (simp add: inRange_def)
    with assms(1) have "bounded (sortTasks (tasks[k := ?t']))" by (rule bounded_written)
    with Some Reopen show ?thesis by (simp add: reopenTask_def Let_def)
  qed
qed

text \<open>Conversely, a command that leaves the store in range has written a pair in range.\<close>

lemma bounded_only:
  assumes "bounded (fst (exec c tasks))"
  shows "keepsBounds c tasks"
proof (cases c)
  case (Create payload fresh now1 now2)
  with assms show ?thesis
    by (simp add: addTask_def Let_def bounded_iff set_sortTasks inRange_def normalizeTask_def)
next
  case (Edit payload now1 now2)
  show ?thesis
  proof (cases "p_id payload")
    case (Given i)
    show ?thesis
    proof (cases "findTaskById i tasks")
      case None
      with Given Edit show ?thesis by simp
    next
      case (Some t)
      let ?t' = "normalizeTask (spreadTask t payload i now1) now2 now1"
      from Some Given obtain k where k: "k < length tasks"
        and eq: "updateTask payload now1 now2 tasks =
          (sortTasks (tasks[k := ?t']), elemAt (sortTasks (tasks[k := ?t'])) k)"
        by (rule updateTask_found)
      from k have "?t' \<in> set (sortTasks (tasks[k := ?t']))"
        by (simp add: set_sortTasks set_update_memI)
      with assms eq Edit have "inRange ?t'"
        by (simp add: bounded_iff)
      with Edit Given Some show ?thesis
        by (simp add: inRange_def edited_fields Let_def)
    qed
  qed (use Edit in simp_all)
next
  case (Delete i)
  then show ?thesis by simp
next
  case (IncreaseProgress i now)
  show ?thesis
  proof (cases "findTaskById i tasks")
    case None
    with IncreaseProgress show ?thesis by simp
  next
    case (Some t)
    let ?t' = "t\<lparr>progress := progress t + 1,
                   status := (if target t \<le> progress t + 1 \<and> status t \<noteq> ''archived''
                              then ''completed'' else status t),
                   updatedAt := now\<rparr>"
    from Some obtain k where k: "k < length tasks"
      and eq: "increaseProgress i now tasks =
         (if progress t < target t then (sortTasks (tasks[k := ?t']), Task ?t') else (tasks, Task t))"
      by (rule increaseProgress_found)
    show ?thesis
    proof (cases "progress t < target t")
      case True
      from k have "?t' \<in> set (sortTasks (tasks[k := ?t']))"
        by (simp add: set_sortTasks set_update_memI)
      with assms eq True IncreaseProgress have "inRange ?t'"
        by (simp add: bounded_iff)
      with IncreaseProgress Some True show ?thesis
        by (simp add: inRange_def)
    next
      case False
      with IncreaseProgress Some show ?thesis by simp
    qed
  qed
next
  case (Archive i now)
  then show ?thesis by simp
next
  case (Reopen i now)
  then show ?thesis by simp
qed

text \<open>For the payloads of the dialog, \<open>keepsBounds\<close> reads as follows.\<close>

lemma keepsBounds_form_Create:
  "keepsBounds (Create (formPayload i n d ty tg) fresh now1 now2) tasks \<longleftrightarrow> 0 \<le> tg"
  by (simp add: formPayload_def read_key_def nullish_def Let_def)

lemma keepsBounds_form_Edit:
  "findTaskById i tasks = Some t \<Longrightarrow>
   keepsBounds (Edit (formPayload (Given i) n d ty tg) now1 now2) tasks
     \<longleftrightarrow> 0 \<le> progress t \<and> progress t \<le> tg"
  by (simp add: formPayload_def spread_def nullish_def Let_def)

text \<open>Ids stay distinct as long as every generated id is new.\<close>

lemma distinct_ids_exec:
  assumes "distinct (map id_t tasks)"
    and "case c of Create payload fresh now1 now2 \<Rightarrow> fresh \<notin> id_t ` set tasks | _ \<Rightarrow> True"
  shows "distinct (map id_t (fst (exec c tasks)))"
proof (cases c)
  case (Create payload fresh now1 now2)
  with assms show ?thesis
    by (simp add: addTask_def Let_def distinct_ids_sortTasks normalizeTask_def)
next
  case (Edit payload now1 now2)
  show ?thesis
  proof (cases "p_id payload")
    case (Given i)
    show ?thesis
    proof (cases "findIndex (\<lambda>item. id_t item = i) tasks")
      case None
      with Given Edit assms(1) show ?thesis by (simp add: updateTask_def)
    next
      case (Some k)
      have "id_t (normalizeTask (spreadTask (tasks ! k) payload i now1) now2 now1) = i"
        by (rule edited_fields)
      with Some have "map id_t (tasks[k := normalizeTask (spreadTask (tasks ! k) payload i now1) now2 now1]) = map id_t tasks"
        by (rule ids_update)
      with Some Given Edit assms(1) show ?thesis
        by (simp add: updateTask_def Let_def distinct_ids_sortTasks)
    qed
  qed (use Edit assms(1) in \<open>simp_all add: updateTask_no_id\<close>)
next
  case (Delete i)
  with assms(1) show ?thesis
    by (simp add: deleteTask_def distinct_map_filter)
next
  case (IncreaseProgress i now)
  show ?thesis
  proof (cases "findIndex (\<lambda>item. id_t item = i) tasks")
    case None
    with IncreaseProgress assms(1) show ?thesis by (simp add: increaseProgress_def)
  next
    case (Some k)
    then have i: "id_t (tasks ! k) = i"
      using findIndex_Some [of "\<lambda>item. id_t item = i" tasks k] by simp
    have "\<And>t'. id_t t' = i \<Longrightarrow> distinct (map id_t (sortTasks (tasks[k := t'])))"
      using Some assms(1) by (simp add: ids_update distinct_ids_sortTasks)
    with Some IncreaseProgress assms(1) i show ?thesis
      by (simp add: increaseProgress_def Let_def)
  qed
next
  case (Archive i now)
  show ?thesis
  proof (cases "findIndex (\<lambda>item. id_t item = i) tasks")
    case None
    with Archive assms(1) show ?thesis by (simp add: archiveTask_def)
  next
    case (Some k)
    then have i: "id_t (tasks ! k) = i"
      using findIndex_Some [of "\<lambda>item. id_t item = i" tasks k] by simp
    have "\<And>t'. id_t t' = i \<Longrightarrow> distinct (map id_t (sortTasks (tasks[k := t'])))"
      using Some assms(1) by (simp add: ids_update distinct_ids_sortTasks)
    with Some Archive i show ?thesis
      by (simp add: archiveTask_def Let_def)
  qed
next
  case (Reopen i now)
  show ?thesis
  proof (cases "findIndex (\<lambda>item. id_t item = i) tasks")
    case None
    with Reopen assms(1) show ?thesis by (simp add: reopenTask_def)
  next
    case (Some k)
    then have i: "id_t (tasks ! k) = i"
      using findIndex_Some [of "\<lambda>item. id_t item = i" tasks k] by simp
    have "\<And>t'. id_t t' = i \<Longrightarrow> distinct (map id_t (sortTasks (tasks[k := t'])))"
      using Some assms(1) by (simp add: ids_update distinct_ids_sortTasks)
    with Some Reopen i show ?thesis
      by (simp add: reopenTask_def Let_def)
  qed
qed

subsection \<open>Tasks made by the panel\<close>

lemma counts_exec:
  assumes "list_all counts tasks" and "fromPanel c"
  shows "list_all counts (fst (exec c tasks))"
proof (cases c)
  case (Create payload fresh now1 now2)
  with assms show ?thesis
    by (auto simp: addTask_def Let_def list_all_iff set_sortTasks counts_def normalizeTask_def
        dialogPayload_def read_key_def nullish_def split: field.splits)
next
  case (Edit payload now1 now2)
  show ?thesis
  proof (cases "p_id payload")
    case (Given i)
    show ?thesis
    proof (cases "findIndex (\<lambda>item. id_t item = i) tasks")
      case None
      with Given Edit assms(1) show ?thesis by (simp add: updateTask_def)
    next
      case (Some k)
      then have "tasks ! k \<in> set tasks"
        using findIndex_Some [of "\<lambda>item. id_t item = i" tasks k] by simp
      with assms(1) have "counts (tasks ! k)" by (simp add: list_all_iff)
      with assms(2) Edit have "counts (normalizeTask (spreadTask (tasks ! k) payload i now1) now2 now1)"
        by (auto simp: counts_def edited_fields dialogPayload_def spread_def nullish_def split: field.splits)
      with assms(1) have "list_all counts (sortTasks (tasks[k := normalizeTask (spreadTask (tasks ! k) payload i now1) now2 now1]))"
        by (rule all_written)
      with Some Given Edit show ?thesis by (simp add: updateTask_def Let_def)
    qed
  qed (use Edit assms(1) in \<open>simp_all add: updateTask_no_id\<close>)
next
  case (Delete i)
  with assms(1) show ?thesis
    by (simp add: deleteTask_def list_all_iff)
next
  case (IncreaseProgress i now)
  show ?thesis
  proof (cases "findIndex (\<lambda>item. id_t item = i) tasks")
    case None
    with IncreaseProgress assms(1) show ?thesis by (simp add: increaseProgress_def)
  next
    case (Some k)
    then have "tasks ! k \<in> set tasks"
      using findIndex_Some [of "\<lambda>item. id_t item = i" tasks k] by simp
    with assms(1) have r: "counts (tasks ! k)" by (simp add: list_all_iff)
    let ?t' = "(if target (tasks ! k) \<le> progress (tasks ! k) + 1 \<and> status (tasks ! k) \<noteq> ''archived''
                then (tasks ! k)\<lparr>progress := progress (tasks ! k) + 1, status := ''completed''\<rparr>
                else (tasks ! k)\<lparr>progress := progress (tasks ! k) + 1\<rparr>)\<lparr>updatedAt := now\<rparr>"
    from r have "counts ?t'" by (simp add: counts_def)
    with assms(1) have "list_all counts (sortTasks (tasks[k := ?t']))" by (rule all_written)
    with Some IncreaseProgress assms(1) show ?thesis
      by (simp add: increaseProgress_def Let_def)
  qed
next
  case (Archive i now)
  show ?thesis
  proof (cases "findIndex (\<lambda>item. id_t item = i) tasks")
    case None
    with Archive assms(1) show ?thesis by (simp add: archiveTask_def)
  next
    case (Some k)
    then have "tasks ! k \<in> set tasks"
      using findIndex_Some [of "\<lambda>item. id_t item = i" tasks k] by simp
    with assms(1) have "counts (tasks ! k)" by (simp add: list_all_iff)
    then have "counts ((tasks ! k)\<lparr>status := ''archived'', updatedAt := now\<rparr>)"
      by (simp add: counts_def)
    with assms(1) have "list_all counts (sortTasks (tasks[k := (tasks ! k)\<lparr>status := ''archived'', updatedAt := now\<rparr>]))"
      by (rule all_written)
    with Some Archive show ?thesis by (simp add: archiveTask_def Let_def)
  qed
next
  case (Reopen i now)
  show ?thesis
  proof (cases "findIndex (\<lambda>item. id_t item = i) tasks")
    case None
    with Reopen assms(1) show ?thesis by (simp add: reopenTask_def)
  next
    case (Some k)
    let ?t' = "(if type_t (tasks ! k) = Some ''cycle''
                then (tasks ! k)\<lparr>status := ''active'', progress := 0\<rparr>
                else (tasks ! k)\<lparr>status := ''active''\<rparr>)\<lparr>updatedAt := now\<rparr>"
    from Some have "tasks ! k \<in> set tasks"
      using findIndex_Some [of "\<lambda>item. id_t item = i" tasks k] by simp
    with assms(1) have "counts (tasks ! k)" by (simp add: list_all_iff)
    then have "counts ?t'" by (simp add: counts_def)
    with assms(1) have "list_all counts (sortTasks (tasks[k := ?t']))" by (rule all_written)
    with Some Reopen show ?thesis by (simp add: reopenTask_def Let_def)
  qed
qed

lemma counts_run:
  "list_all counts tasks \<Longrightarrow> list_all fromPanel cmds \<Longrightarrow> list_all counts (run cmds tasks)"
  by (induction cmds arbitrary: tasks) (simp_all add: counts_exec)

lemma divisor_nonzero: "divisor tgt \<noteq> 0"
  by (simp add: divisor_def split: option.splits)

lemma progressPercentage_le: "progressPercentage fl prog tgt \<le> 100"
  by (simp add: progressPercentage_def Let_def)

lemma progressPercentage_ge:
  assumes "\<forall>x. 0 \<le> x \<longrightarrow> 0 \<le> fl x"
    and "0 \<le> prog"
    and "case tgt of None \<Rightarrow> True | Some t \<Rightarrow> 0 \<le> t"
  shows "0 \<le> progressPercentage fl prog tgt"
proof -
  have "0 < divisor tgt"
    using assms(3) by (rule divisor_pos)
  then have "(0::rat) \<le> prog / divisor tgt"
    using assms(2) by simp
  then have "0 \<le> fl (prog / divisor tgt)"
    using assms(1) by blast
  then have "0 \<le> fl (prog / divisor tgt) * 100"
    by simp
  then have "0 \<le> fl (fl (prog / divisor tgt) * 100)"
    using assms(1) by blast
  then have "0 \<le> js_round (fl (fl (prog / divisor tgt) * 100))"
    by (rule js_round_nonneg)
  then show ?thesis
    by (simp add: progressPercentage_def Let_def)
qed

section \<open>The claims\<close>

text \<open>
  C1. For every existing task, Reopen sets the status to active, and it resets progress to 0
  exactly when the kind of the task is cycle: for every other kind progress is left as it
  was. The task returned is the stored one; only \<^verbatim>\<open>status\<close>, \<^verbatim>\<open>progress\<close> and
  \<^verbatim>\<open>updatedAt\<close> are written.
\<close>

theorem reopenTask_resets_cycle_only:
  assumes "findTaskById i tasks = Some t"
  shows "\<exists>t'. snd (reopenTask i now tasks) = Task t'
      \<and> t' \<in> set (fst (reopenTask i now tasks))
      \<and> (distinct (map id_t tasks) \<longrightarrow> findTaskById i (fst (reopenTask i now tasks)) = Some t')
      \<and> status t' = ''active''
      \<and> (type_t t = Some ''cycle'' \<longrightarrow> progress t' = 0)
      \<and> (type_t t \<noteq> Some ''cycle'' \<longrightarrow> progress t' = progress t)
      \<and> t' = t\<lparr>status := ''active'',
                 progress := (if type_t t = Some ''cycle'' then 0 else progress t),
                 updatedAt := now\<rparr>"
proof -
  let ?t' = "t\<lparr>status := ''active'',
                 progress := (if type_t t = Some ''cycle'' then 0 else progress t),
                 updatedAt := now\<rparr>"
  from assms obtain k where k: "k < length tasks" "tasks ! k = t"
    "findIndex (\<lambda>item. id_t item = i) tasks = Some k"
    "reopenTask i now tasks = (sortTasks (tasks[k := ?t']), Task ?t')"
    by (rule reopenTask_found)
  from assms have i: "id_t ?t' = i"
    by (auto simp: findTaskById_def find_Some_iff)
  have "?t' \<in> set (sortTasks (tasks[k := ?t']))"
    using k(1) by (simp add: set_sortTasks set_update_memI)
  moreover have "distinct (map id_t tasks) \<longrightarrow> findTaskById i (sortTasks (tasks[k := ?t'])) = Some ?t'"
    using stored_after [OF _ k(3) i] by blast
  ultimately show ?thesis
    using k(4) by simp
qed

theorem reopenTask_resets_cycle_only_witness:
  "findTaskById ''t2'' board = Some weekly \<and> type_t weekly = Some ''cycle''
   \<and> progress weekly = 1 \<and> distinct (map id_t board)
   \<and> (\<exists>t'. snd (reopenTask ''t2'' ''2025-01-04T08:00:00.000Z'' board) = Task t'
          \<and> findTaskById ''t2'' (fst (reopenTask ''t2'' ''2025-01-04T08:00:00.000Z'' board)) = Some t'
          \<and> status t' = ''active'' \<and> progress t' = 0)
   \<and> findTaskById ''t1'' board = Some checklist \<and> type_t checklist = Some ''once''
   \<and> (\<exists>t'. snd (reopenTask ''t1'' ''2025-01-04T08:00:00.000Z'' board) = Task t'
          \<and> status t' = ''active'' \<and> progress t' = 2)"
proof -
  have h: "findTaskById ''t2'' board = Some weekly" "findTaskById ''t1'' board = Some checklist"
    by (simp_all add: findTaskById_def board_def weekly_def checklist_def)
  have c: "type_t weekly = Some ''cycle''" "progress weekly = 1" "distinct (map id_t board)"
    "type_t checklist = Some ''once''" "type_t checklist \<noteq> Some ''cycle''" "progress checklist = 2"
    by (simp_all add: weekly_def checklist_def board_def)
  from reopenTask_resets_cycle_only [OF h(1), of "''2025-01-04T08:00:00.000Z''"] c
  have 1: "\<exists>t'. snd (reopenTask ''t2'' ''2025-01-04T08:00:00.000Z'' board) = Task t'
          \<and> findTaskById ''t2'' (fst (reopenTask ''t2'' ''2025-01-04T08:00:00.000Z'' board)) = Some t'
          \<and> status t' = ''active'' \<and> progress t' = 0"
    by blast
  from reopenTask_resets_cycle_only [OF h(2), of "''2025-01-04T08:00:00.000Z''"] c
  have 2: "\<exists>t'. snd (reopenTask ''t1'' ''2025-01-04T08:00:00.000Z'' board) = Task t'
          \<and> status t' = ''active'' \<and> progress t' = 2"
    by metis
  from 1 2 h c show ?thesis by blast
qed

text \<open>
  C2, as the code has it. Archive, Reopen and Delete keep \<open>0 \<le> progress \<le> target\<close> for
  every task, always. Each other command keeps it exactly when the pair of progress and
  target it writes is in range. Create and Edit store the pair they are given without
  clamping: Create the payload's values, 0 and 1 where the payload has none, Edit the
  payload's values where the key is present and the stored ones otherwise.
  IncreaseProgress writes progress plus one whenever progress is below target, which is
  within target when progress and target are whole numbers. Over a sequence of commands
  each of which meets this condition in the store it runs on, the invariant holds at the
  end. An Edit that lowers target below the current progress, leaving progress alone,
  leaves the task with progress greater than target.
\<close>

theorem bounds_kept_when_written_pair_in_range:
  "(bounded tasks \<and> keepsBounds c tasks \<longrightarrow> bounded (fst (exec c tasks)))
   \<and> (bounded (fst (exec c tasks)) \<longrightarrow> keepsBounds c tasks)
   \<and> (bounded tasks \<and> keepsBoundsAll cmds tasks \<longrightarrow> bounded (run cmds tasks))
   \<and> keepsBounds (Archive i now) tasks \<and> keepsBounds (Reopen i now) tasks
   \<and> keepsBounds (Delete i) tasks
   \<and> (findTaskById i tasks = Some t \<and> whole (progress t) \<and> whole (target t) \<longrightarrow>
        keepsBounds (IncreaseProgress i now) tasks)
   \<and> (findTaskById i tasks = Some t \<and> p_id payload = Given i \<and> p_progress payload = Absent
        \<and> p_target payload = Given n \<and> n < progress t \<longrightarrow>
        \<not> bounded (fst (updateTask payload now1 now2 tasks))
        \<and> (\<exists>t' \<in> set (fst (updateTask payload now1 now2 tasks)).
              id_t t' = i \<and> target t' = n \<and> progress t' = progress t \<and> target t' < progress t'))"
proof -
  have seq: "bounded tasks \<and> keepsBoundsAll cmds tasks \<longrightarrow> bounded (run cmds tasks)"
  proof (induction cmds arbitrary: tasks)
    case Nil
    show ?case by simp
  next
    case (Cons c cs)
    show ?case
    proof
      assume a: "bounded tasks \<and> keepsBoundsAll (c # cs) tasks"
      then have "bounded (fst (exec c tasks))"
        by (simp add: bounded_exec)
      moreover from a have "keepsBoundsAll cs (fst (exec c tasks))"
        by simp
      ultimately have "bounded (run cs (fst (exec c tasks)))"
        using Cons.IH by blast
      then show "bounded (run (c # cs) tasks)" by simp
    qed
  qed
  have inc: "findTaskById i tasks = Some t \<and> whole (progress t) \<and> whole (target t) \<longrightarrow>
        keepsBounds (IncreaseProgress i now) tasks"
    by (simp add: whole_step(1))
  have edit: "findTaskById i tasks = Some t \<and> p_id payload = Given i \<and> p_progress payload = Absent
        \<and> p_target payload = Given n \<and> n < progress t \<longrightarrow>
        \<not> bounded (fst (updateTask payload now1 now2 tasks))
        \<and> (\<exists>t' \<in> set (fst (updateTask payload now1 now2 tasks)).
              id_t t' = i \<and> target t' = n \<and> progress t' = progress t \<and> target t' < progress t')"
  proof
    assume a: "findTaskById i tasks = Some t \<and> p_id payload = Given i \<and> p_progress payload = Absent
        \<and> p_target payload = Given n \<and> n < progress t"
    let ?t' = "normalizeTask (spreadTask t payload i now1) now2 now1"
    from a obtain k where k: "k < length tasks"
      and eq: "updateTask payload now1 now2 tasks =
        (sortTasks (tasks[k := ?t']), elemAt (sortTasks (tasks[k := ?t'])) k)"
      by (blast intro: updateTask_found)
    from k eq have m: "?t' \<in> set (fst (updateTask payload now1 now2 tasks))"
      by (simp add: set_sortTasks set_update_memI)
    from a have f: "id_t ?t' = i" "target ?t' = n" "progress ?t' = progress t"
      by (simp_all add: edited_fields spread_def nullish_def)
    with a have "\<not> inRange ?t'"
      by (simp add: inRange_def)
    with m have "\<not> bounded (fst (updateTask payload now1 now2 tasks))"
      by (auto simp: bounded_iff)
    moreover from m f a
    have "\<exists>t' \<in> set (fst (updateTask payload now1 now2 tasks)).
              id_t t' = i \<and> target t' = n \<and> progress t' = progress t \<and> target t' < progress t'"
      by (intro bexI [of _ ?t']) simp_all
    ultimately show "\<not> bounded (fst (updateTask payload now1 now2 tasks))
        \<and> (\<exists>t' \<in> set (fst (updateTask payload now1 now2 tasks)).
              id_t t' = i \<and> target t' = n \<and> progress t' = progress t \<and> target t' < progress t')"
      by blast
  qed
  from seq inc edit show ?thesis
    by (simp add: bounded_exec bounded_only)
qed

theorem bounds_kept_when_written_pair_in_range_witness:
  "bounded board \<and> keepsBounds (IncreaseProgress ''t1'' ''2025-01-04T08:00:00.000Z'') board
   \<and> bounded (fst (exec (IncreaseProgress ''t1'' ''2025-01-04T08:00:00.000Z'') board))
   \<and> bounded [] \<and> keepsBoundsAll session [] \<and> bounded (run session [])
   \<and> findTaskById ''t1'' board = Some checklist
   \<and> whole (progress checklist) \<and> whole (target checklist)
   \<and> p_id shrink = Given ''t1'' \<and> p_progress shrink = Absent \<and> p_target shrink = Given 1
   \<and> 1 < progress checklist
   \<and> \<not> bounded (fst (updateTask shrink ''2025-01-04T08:00:00.000Z'' ''2025-01-04T08:00:00.001Z'' board))"
proof -
  have h: "bounded board" "bounded []" "keepsBoundsAll session []"
    "keepsBounds (IncreaseProgress ''t1'' ''2025-01-04T08:00:00.000Z'') board"
    by code_simp+
  have e: "findTaskById ''t1'' board = Some checklist"
    "whole (progress checklist)" "whole (target checklist)"
    "p_id shrink = Given ''t1''" "p_progress shrink = Absent" "p_target shrink = Given 1"
    "1 < progress checklist"
    by (simp_all add: findTaskById_def board_def weekly_def checklist_def shrink_def
        formPayload_def whole_def)
  from bounds_kept_when_written_pair_in_range
    [of board "IncreaseProgress ''t1'' ''2025-01-04T08:00:00.000Z''" session "''t1''" _ checklist shrink 1
        "''2025-01-04T08:00:00.000Z''" "''2025-01-04T08:00:00.001Z''"]
    bounds_kept_when_written_pair_in_range [of "[]" _ session]
    h e
  show ?thesis by blast
qed

text \<open>
  C2 as stated fails, in three ways. After a task has been created with target 10 and
  increased five times, saving it from the dialog with target 3 leaves progress 5 above
  target 3. A task created from a payload with progress 7 and target 3 is stored so. A
  task with target one and a half, increased twice, ends with progress 2.
\<close>

theorem edit_breaks_bounds_counterexample:
  "bounded (run session []) \<and> \<not> bounded (run (session @ [lowerTarget]) [])
   \<and> map_option progress (findTaskById ''t9'' (run (session @ [lowerTarget]) [])) = Some 5
   \<and> map_option target (findTaskById ''t9'' (run (session @ [lowerTarget]) [])) = Some 3
   \<and> \<not> bounded (run [overfull] [])
   \<and> map_option progress (findTaskById ''t8'' (run [overfull] [])) = Some 7
   \<and> map_option target (findTaskById ''t8'' (run [overfull] [])) = Some 3
   \<and> \<not> bounded (run halves [])
   \<and> map_option progress (findTaskById ''t6'' (run halves [])) = Some 2
   \<and> map_option target (findTaskById ''t6'' (run halves [])) = Some (3 / 2)"
  by code_simp

text \<open>
  C3, as the code has it. When Edit lowers the target of an existing task below its
  progress (the payload carrying neither \<^verbatim>\<open>progress\<close> nor \<^verbatim>\<open>status\<close>, as the dialog's
  does), the stored task has the new target, and its progress and status are exactly
  the ones before: nothing is clamped and nothing is recomputed, so progress exceeds
  target afterwards.
\<close>

theorem edit_keeps_progress_and_status:
  assumes "findTaskById i tasks = Some t" and "distinct (map id_t tasks)"
    and "p_id payload = Given i" and "p_target payload = Given n" and "n < progress t"
    and "p_progress payload = Absent" and "p_status payload = Absent"
  shows "\<exists>t'. findTaskById i (fst (updateTask payload now1 now2 tasks)) = Some t'
      \<and> target t' = n \<and> progress t' = progress t \<and> status t' = status t
      \<and> target t' < progress t' \<and> updatedAt t' = now1"
proof -
  let ?t' = "normalizeTask (spreadTask t payload i now1) now2 now1"
  have "findTaskById i (fst (updateTask payload now1 now2 tasks)) = Some ?t'"
    using assms(1-3) by (rule updateTask_stored)
  moreover have "target ?t' = n" "progress ?t' = progress t" "status ?t' = status t" "updatedAt ?t' = now1"
    using assms(4,6,7) by (simp_all add: edited_fields spread_def nullish_def)
  ultimately show ?thesis using assms(5) by simp
qed

theorem edit_keeps_progress_and_status_witness:
  "findTaskById ''t1'' board = Some checklist \<and> distinct (map id_t board)
   \<and> p_id shrink = Given ''t1'' \<and> p_target shrink = Given 1 \<and> 1 < progress checklist
   \<and> p_progress shrink = Absent \<and> p_status shrink = Absent
   \<and> (\<exists>t'. findTaskById ''t1'' (fst (updateTask shrink ''2025-01-04T08:00:00.000Z'' ''2025-01-04T08:00:00.001Z'' board)) = Some t'
      \<and> target t' = 1 \<and> progress t' = 2 \<and> status t' = ''active'')"
proof -
  have h: "findTaskById ''t1'' board = Some checklist" "distinct (map id_t board)"
    "p_id shrink = Given ''t1''" "p_target shrink = Given 1" "1 < progress checklist"
    "p_progress shrink = Absent" "p_status shrink = Absent"
    by (simp_all add: findTaskById_def board_def weekly_def checklist_def shrink_def formPayload_def)
  have c: "progress checklist = 2" "status checklist = ''active''"
    by (simp_all add: checklist_def)
  from edit_keeps_progress_and_status [OF h, of "''2025-01-04T08:00:00.000Z''" "''2025-01-04T08:00:00.001Z''"] h c
  show ?thesis by metis
qed

text \<open>
  C3 as stated fails: with progress 5 and status active, lowering the target from 10 to 3
  leaves progress 5 (not 3) and status active (not completed).
\<close>

theorem edit_clamps_counterexample:
  "map_option progress (findTaskById ''t9'' (run session [])) = Some 5
   \<and> map_option target (findTaskById ''t9'' (run session [])) = Some 10
   \<and> map_option progress (findTaskById ''t9'' (fst (exec lowerTarget (run session [])))) = Some 5
   \<and> map_option target (findTaskById ''t9'' (fst (exec lowerTarget (run session [])))) = Some 3
   \<and> map_option status (findTaskById ''t9'' (fst (exec lowerTarget (run session [])))) = Some ''active''"
  by code_simp

text \<open>
  C4, as the code has it. No transition is refused. IncreaseProgress on an archived task
  below its target adds 1 to progress and refreshes \<^verbatim>\<open>updatedAt\<close>, the status staying
  archived (at or above the target it changes nothing and returns the task); Archive on
  an archived task refreshes \<^verbatim>\<open>updatedAt\<close> and returns the task; Reopen on a task that
  is not archived sets the status to active, resets progress for a cycle, and refreshes
  \<^verbatim>\<open>updatedAt\<close>. Each returns the written task, which is in the store.
\<close>

theorem transitions_are_carried_out:
  assumes "findTaskById i tasks = Some t"
  shows "(status t = ''archived'' \<and> progress t < target t \<longrightarrow>
            snd (increaseProgress i now tasks) = Task (t\<lparr>progress := progress t + 1, updatedAt := now\<rparr>)
            \<and> t\<lparr>progress := progress t + 1, updatedAt := now\<rparr> \<in> set (fst (increaseProgress i now tasks)))
       \<and> (status t = ''archived'' \<and> target t \<le> progress t \<longrightarrow>
            increaseProgress i now tasks = (tasks, Task t))
       \<and> (status t = ''archived'' \<longrightarrow>
            snd (archiveTask i now tasks) = Task (t\<lparr>updatedAt := now\<rparr>)
            \<and> t\<lparr>updatedAt := now\<rparr> \<in> set (fst (archiveTask i now tasks)))
       \<and> (status t \<noteq> ''archived'' \<longrightarrow>
            snd (reopenTask i now tasks)
              = Task (t\<lparr>status := ''active'',
                       progress := (if type_t t = Some ''cycle'' then 0 else progress t),
                       updatedAt := now\<rparr>)
            \<and> t\<lparr>status := ''active'',
                 progress := (if type_t t = Some ''cycle'' then 0 else progress t),
                 updatedAt := now\<rparr> \<in> set (fst (reopenTask i now tasks)))"
proof (intro conjI impI)
  assume a: "status t = ''archived'' \<and> progress t < target t"
  let ?t' = "t\<lparr>progress := progress t + 1,
                 status := (if target t \<le> progress t + 1 \<and> status t \<noteq> ''archived''
                            then ''completed'' else status t),
                 updatedAt := now\<rparr>"
  from assms obtain k where k: "k < length tasks"
    and eq: "increaseProgress i now tasks =
       (if progress t < target t then (sortTasks (tasks[k := ?t']), Task ?t') else (tasks, Task t))"
    by (rule increaseProgress_found)
  from a have "?t' = t\<lparr>progress := progress t + 1, updatedAt := now\<rparr>"
    by (cases t) simp
  with a eq have eq': "increaseProgress i now tasks =
      (sortTasks (tasks[k := t\<lparr>progress := progress t + 1, updatedAt := now\<rparr>]),
       Task (t\<lparr>progress := progress t + 1, updatedAt := now\<rparr>))"
    by (simp only: if_True)
  from eq' show "snd (increaseProgress i now tasks) = Task (t\<lparr>progress := progress t + 1, updatedAt := now\<rparr>)"
    by simp
  from eq' k show "t\<lparr>progress := progress t + 1, updatedAt := now\<rparr> \<in> set (fst (increaseProgress i now tasks))"
    by (simp add: set_sortTasks set_update_memI)
next
  assume a: "status t = ''archived'' \<and> target t \<le> progress t"
  from assms obtain k where
    "increaseProgress i now tasks =
       (if progress t < target t
        then (sortTasks (tasks[k := t\<lparr>progress := progress t + 1,
                   status := (if target t \<le> progress t + 1 \<and> status t \<noteq> ''archived''
                              then ''completed'' else status t),
                   updatedAt := now\<rparr>]),
              Task (t\<lparr>progress := progress t + 1,
                   status := (if target t \<le> progress t + 1 \<and> status t \<noteq> ''archived''
                              then ''completed'' else status t),
                   updatedAt := now\<rparr>))
        else (tasks, Task t))"
    by (rule increaseProgress_found)
  with a show "increaseProgress i now tasks = (tasks, Task t)"
    by simp
next
  assume a: "status t = ''archived''"
  from assms obtain k where k: "k < length tasks"
    and eq: "archiveTask i now tasks =
       (sortTasks (tasks[k := t\<lparr>status := ''archived'', updatedAt := now\<rparr>]),
        Task (t\<lparr>status := ''archived'', updatedAt := now\<rparr>))"
    by (rule archiveTask_found)
  from a have t': "t\<lparr>status := ''archived'', updatedAt := now\<rparr> = t\<lparr>updatedAt := now\<rparr>"
    by (cases t) simp
  from eq t' show "snd (archiveTask i now tasks) = Task (t\<lparr>updatedAt := now\<rparr>)"
    by simp
  from eq t' k show "t\<lparr>updatedAt := now\<rparr> \<in> set (fst (archiveTask i now tasks))"
    by (simp add: set_sortTasks set_update_memI)
next
  assume "status t \<noteq> ''archived''"
  let ?t' = "t\<lparr>status := ''active'',
                 progress := (if type_t t = Some ''cycle'' then 0 else progress t),
                 updatedAt := now\<rparr>"
  from assms obtain k where k: "k < length tasks"
    and eq: "reopenTask i now tasks = (sortTasks (tasks[k := ?t']), Task ?t')"
    by (rule reopenTask_found)
  from eq show "snd (reopenTask i now tasks) = Task ?t'"
    by simp
  from eq k show "?t' \<in> set (fst (reopenTask i now tasks))"
    by (simp add: set_sortTasks set_update_memI)
qed

theorem transitions_are_carried_out_witness:
  "findTaskById ''t1'' [shelved] = Some shelved
   \<and> status shelved = ''archived'' \<and> progress shelved < target shelved
   \<and> snd (increaseProgress ''t1'' ''2025-01-04T08:00:00.000Z'' [shelved])
       = Task (shelved\<lparr>progress := progress shelved + 1, updatedAt := ''2025-01-04T08:00:00.000Z''\<rparr>)
   \<and> snd (archiveTask ''t1'' ''2025-01-04T08:00:00.000Z'' [shelved])
       = Task (shelved\<lparr>updatedAt := ''2025-01-04T08:00:00.000Z''\<rparr>)
   \<and> findTaskById ''t2'' [weekly] = Some weekly
   \<and> status weekly = ''archived'' \<and> target weekly \<le> progress weekly
   \<and> increaseProgress ''t2'' ''2025-01-04T08:00:00.000Z'' [weekly] = ([weekly], Task weekly)
   \<and> findTaskById ''t2'' [finished] = Some finished
   \<and> status finished \<noteq> ''archived''
   \<and> snd (reopenTask ''t2'' ''2025-01-04T08:00:00.000Z'' [finished])
       = Task (finished\<lparr>status := ''active'', progress := 0, updatedAt := ''2025-01-04T08:00:00.000Z''\<rparr>)"
proof -
  have h: "findTaskById ''t1'' [shelved] = Some shelved" "findTaskById ''t2'' [weekly] = Some weekly"
    "findTaskById ''t2'' [finished] = Some finished"
    by (simp_all add: findTaskById_def shelved_def finished_def checklist_def weekly_def)
  have s: "status shelved = ''archived'' \<and> progress shelved < target shelved"
    "status weekly = ''archived'' \<and> target weekly \<le> progress weekly"
    "status finished \<noteq> ''archived''" "type_t finished = Some ''cycle''"
    by (simp_all add: shelved_def finished_def checklist_def weekly_def)
  from transitions_are_carried_out [OF h(1), of "''2025-01-04T08:00:00.000Z''"]
    transitions_are_carried_out [OF h(2), of "''2025-01-04T08:00:00.000Z''"]
    transitions_are_carried_out [OF h(3), of "''2025-01-04T08:00:00.000Z''"] h s
  show ?thesis by simp
qed

text \<open>
  C4 as stated fails: each of the three calls returns a task, not an error, and the
  stored record is not the one before the call.
\<close>

theorem illegal_transition_counterexample:
  "status shelved = ''archived''
   \<and> increaseProgress ''t1'' ''2025-01-04T08:00:00.000Z'' [shelved]
       = ([shelved\<lparr>progress := 3, updatedAt := ''2025-01-04T08:00:00.000Z''\<rparr>],
          Task (shelved\<lparr>progress := 3, updatedAt := ''2025-01-04T08:00:00.000Z''\<rparr>))
   \<and> archiveTask ''t1'' ''2025-01-04T08:00:00.000Z'' [shelved]
       = ([shelved\<lparr>updatedAt := ''2025-01-04T08:00:00.000Z''\<rparr>],
          Task (shelved\<lparr>updatedAt := ''2025-01-04T08:00:00.000Z''\<rparr>))
   \<and> status finished = ''completed''
   \<and> reopenTask ''t2'' ''2025-01-04T08:00:00.000Z'' [finished]
       = ([finished\<lparr>status := ''active'', progress := 0, updatedAt := ''2025-01-04T08:00:00.000Z''\<rparr>],
          Task (finished\<lparr>status := ''active'', progress := 0, updatedAt := ''2025-01-04T08:00:00.000Z''\<rparr>))"
  by code_simp

text \<open>
  C5, as the code has it. An Edit whose payload carries a kind is carried out, whether or
  not the kind differs from the stored one: the stored task has the payload's kind
  afterwards, and the call returns a task.
\<close>

theorem edit_changes_kind:
  assumes "findTaskById i tasks = Some t" and "distinct (map id_t tasks)"
    and "p_id payload = Given i" and "p_type payload = Given k"
  shows "\<exists>t'. findTaskById i (fst (updateTask payload now1 now2 tasks)) = Some t'
      \<and> type_t t' = Some k
      \<and> (\<exists>r. snd (updateTask payload now1 now2 tasks) = Task r)"
proof -
  let ?t' = "normalizeTask (spreadTask t payload i now1) now2 now1"
  have "findTaskById i (fst (updateTask payload now1 now2 tasks)) = Some ?t'"
    and "\<exists>r. snd (updateTask payload now1 now2 tasks) = Task r"
    using assms(1-3) by (rule updateTask_stored)+
  moreover have "type_t ?t' = Some k"
    using assms(4) by (simp add: edited_fields spread_def)
  ultimately show ?thesis by simp
qed

theorem edit_changes_kind_witness:
  "findTaskById ''t1'' board = Some checklist \<and> distinct (map id_t board)
   \<and> p_id retype = Given ''t1'' \<and> p_type retype = Given ''cycle''
   \<and> (\<exists>t'. findTaskById ''t1'' (fst (updateTask retype ''2025-01-04T08:00:00.000Z'' ''2025-01-04T08:00:00.001Z'' board)) = Some t'
      \<and> type_t t' = Some ''cycle'')"
proof -
  have h: "findTaskById ''t1'' board = Some checklist" "distinct (map id_t board)"
    "p_id retype = Given ''t1''" "p_type retype = Given ''cycle''"
    by (simp_all add: findTaskById_def board_def weekly_def checklist_def retype_def formPayload_def)
  from edit_changes_kind [OF h, of "''2025-01-04T08:00:00.000Z''" "''2025-01-04T08:00:00.001Z''"] h
  show ?thesis by metis
qed

text \<open>
  C5 as stated fails: editing the once task \<open>checklist\<close> with kind cycle stores kind cycle.
\<close>

theorem edit_kind_counterexample:
  "map_option type_t (findTaskById ''t1'' board) = Some (Some ''once'')
   \<and> p_type retype = Given ''cycle''
   \<and> updateTask retype ''2025-01-04T08:00:00.000Z'' ''2025-01-04T08:00:00.001Z'' board
       = ([checklist\<lparr>type_t := Some ''cycle'', updatedAt := ''2025-01-04T08:00:00.000Z''\<rparr>, weekly],
          Task weekly)"
  by code_simp

text \<open>
  C6. Once a task has progress equal to its target, IncreaseProgress is idempotent: however
  often it is called, the store is exactly the one before (progress, status and every other
  field of every task), every call returns the unchanged task, and the task found under
  the id is still that task, its progress at its target and not above. This holds for
  archived tasks as well, and for targets that are not whole. Moreover, in a store where
  progress and target are whole numbers with progress at most target, the increase never
  lifts progress above target.
\<close>

theorem increaseProgress_idempotent_at_target:
  "(findTaskById i tasks = Some t \<and> progress t = target t \<longrightarrow>
      increaseMany i nows tasks = (tasks, replicate (length nows) (Task t))
      \<and> findTaskById i (fst (increaseMany i nows tasks)) = Some t)
   \<and> (list_all wholeWithin tasks \<longrightarrow> list_all wholeWithin (fst (increaseMany i nows tasks)))"
proof (intro conjI impI)
  assume a: "findTaskById i tasks = Some t \<and> progress t = target t"
  show same: "increaseMany i nows tasks = (tasks, replicate (length nows) (Task t))"
  proof (induction nows)
    case Nil
    show ?case by simp
  next
    case (Cons now nows)
    from a have "increaseProgress i now tasks = (tasks, Task t)"
      by (simp add: increaseProgress_at_target)
    with Cons show ?case by simp
  qed
  from a show "findTaskById i (fst (increaseMany i nows tasks)) = Some t"
    by (simp add: same)
next
  assume "list_all wholeWithin tasks"
  then show "list_all wholeWithin (fst (increaseMany i nows tasks))"
    by (rule increaseMany_wholeWithin)
qed

theorem increaseProgress_idempotent_at_target_witness:
  "findTaskById ''t1'' [done_task] = Some done_task \<and> progress done_task = target done_task
   \<and> increaseMany ''t1'' [''2025-01-05T08:00:00.000Z'', ''2025-01-06T08:00:00.000Z''] [done_task]
       = ([done_task], [Task done_task, Task done_task])
   \<and> list_all wholeWithin board
   \<and> list_all wholeWithin
         (fst (increaseMany ''t1'' [''2025-01-05T08:00:00.000Z'', ''2025-01-06T08:00:00.000Z''] board))"
proof -
  have h: "findTaskById ''t1'' [done_task] = Some done_task \<and> progress done_task = target done_task"
    by (simp add: findTaskById_def done_task_def checklist_def)
  have b: "list_all wholeWithin board"
    by (simp add: board_def weekly_def checklist_def wholeWithin_def whole_def)
  from increaseProgress_idempotent_at_target
    [of "''t1''" "[done_task]" done_task "[''2025-01-05T08:00:00.000Z'', ''2025-01-06T08:00:00.000Z'']"]
    increaseProgress_idempotent_at_target
    [of "''t1''" board _ "[''2025-01-05T08:00:00.000Z'', ''2025-01-06T08:00:00.000Z'']"] h b
  show ?thesis by simp
qed

text \<open>
  C7, as the code has it. A command whose id is not in the store changes nothing. Edit,
  IncreaseProgress, Archive and Reopen then return \<^verbatim>\<open>null\<close>. Delete returns
  \<^verbatim>\<open>undefined\<close>, as every Delete does, so a second Delete of an id is a silent no-op.
\<close>

theorem absent_id_changes_nothing:
  assumes "findTaskById i tasks = None"
  shows "(p_id payload = Given i \<longrightarrow> updateTask payload now1 now2 tasks = (tasks, Null))
       \<and> increaseProgress i now tasks = (tasks, Null)
       \<and> archiveTask i now tasks = (tasks, Null)
       \<and> reopenTask i now tasks = (tasks, Null)
       \<and> deleteTask i tasks = (tasks, Undefined)
       \<and> snd (deleteTask j others) = Undefined
       \<and> deleteTask j (fst (deleteTask j others)) = (fst (deleteTask j others), Undefined)"
proof -
  from assms have n: "findIndex (\<lambda>item. id_t item = i) tasks = None"
    unfolding findTaskById_def by (rule find_None_findIndex)
  have "p_id payload = Given i \<longrightarrow> updateTask payload now1 now2 tasks = (tasks, Null)"
    using assms by (simp add: updateTask_missing)
  moreover have "increaseProgress i now tasks = (tasks, Null)"
    using n by (simp add: increaseProgress_def)
  moreover have "archiveTask i now tasks = (tasks, Null)"
    using n by (simp add: archiveTask_def)
  moreover have "reopenTask i now tasks = (tasks, Null)"
    using n by (simp add: reopenTask_def)
  moreover have "deleteTask i tasks = (tasks, Undefined)"
    using assms by (simp add: deleteTask_def filter_absent)
  moreover have "snd (deleteTask j others) = Undefined"
    by (simp add: deleteTask_def)
  moreover have "deleteTask j (fst (deleteTask j others)) = (fst (deleteTask j others), Undefined)"
    by (simp add: deleteTask_def)
  ultimately show ?thesis by blast
qed

theorem absent_id_changes_nothing_witness:
  "findTaskById ''t7'' board = None
   \<and> p_id (formPayload (Given ''t7'') ''report'' ''draft'' ''once'' 3) = Given ''t7''
   \<and> updateTask (formPayload (Given ''t7'') ''report'' ''draft'' ''once'' 3)
        ''2025-01-04T08:00:00.000Z'' ''2025-01-04T08:00:00.001Z'' board = (board, Null)
   \<and> increaseProgress ''t7'' ''2025-01-04T08:00:00.000Z'' board = (board, Null)
   \<and> archiveTask ''t7'' ''2025-01-04T08:00:00.000Z'' board = (board, Null)
   \<and> reopenTask ''t7'' ''2025-01-04T08:00:00.000Z'' board = (board, Null)
   \<and> deleteTask ''t7'' board = (board, Undefined)"
proof -
  have h: "findTaskById ''t7'' board = None"
    by (simp add: findTaskById_def board_def weekly_def checklist_def)
  have p: "p_id (formPayload (Given ''t7'') ''report'' ''draft'' ''once'' 3) = Given ''t7''"
    by (simp add: formPayload_def)
  from absent_id_changes_nothing
    [OF h, of "formPayload (Given ''t7'') ''report'' ''draft'' ''once'' 3"
       "''2025-01-04T08:00:00.000Z''" "''2025-01-04T08:00:00.001Z''" "''2025-01-04T08:00:00.000Z''"] h p
  show ?thesis by simp
qed

text \<open>
  C7 as stated fails: the second Delete of \<open>t1\<close> returns what the first returned.
\<close>

theorem second_delete_counterexample:
  "deleteTask ''t1'' board = ([weekly], Undefined)
   \<and> findTaskById ''t1'' [weekly] = None
   \<and> deleteTask ''t1'' [weekly] = ([weekly], Undefined)"
  by code_simp

text \<open>
  C8. For every existing task, Archive sets the status to archived and refreshes
  \<^verbatim>\<open>updatedAt\<close>; progress, target, name, description, kind, repeat rule, the dates, the id
  and \<^verbatim>\<open>createdAt\<close> are as before. The task returned is the stored one. (The status
  before the call plays no part, so the statement covers the non-archived tasks.)
\<close>

theorem archiveTask_frame:
  assumes "findTaskById i tasks = Some t"
  shows "\<exists>t'. snd (archiveTask i now tasks) = Task t'
      \<and> t' \<in> set (fst (archiveTask i now tasks))
      \<and> (distinct (map id_t tasks) \<longrightarrow> findTaskById i (fst (archiveTask i now tasks)) = Some t')
      \<and> t' = t\<lparr>status := ''archived'', updatedAt := now\<rparr>
      \<and> status t' = ''archived''
      \<and> progress t' = progress t \<and> target t' = target t \<and> name t' = name t
      \<and> description t' = description t \<and> type_t t' = type_t t \<and> repeatRule t' = repeatRule t
      \<and> startDate t' = startDate t \<and> endDate t' = endDate t
      \<and> id_t t' = id_t t \<and> createdAt t' = createdAt t"
proof -
  let ?t' = "t\<lparr>status := ''archived'', updatedAt := now\<rparr>"
  from assms obtain k where k: "k < length tasks" "tasks ! k = t"
    "findIndex (\<lambda>item. id_t item = i) tasks = Some k"
    "archiveTask i now tasks = (sortTasks (tasks[k := ?t']), Task ?t')"
    by (rule archiveTask_found)
  from assms have i: "id_t ?t' = i"
    by (auto simp: findTaskById_def find_Some_iff)
  have "?t' \<in> set (sortTasks (tasks[k := ?t']))"
    using k(1) by (simp add: set_sortTasks set_update_memI)
  moreover have "distinct (map id_t tasks) \<longrightarrow> findTaskById i (sortTasks (tasks[k := ?t'])) = Some ?t'"
    using stored_after [OF _ k(3) i] by blast
  ultimately show ?thesis
    using k(4) by simp
qed

theorem archiveTask_frame_witness:
  "findTaskById ''t1'' board = Some checklist \<and> distinct (map id_t board)
   \<and> (\<exists>t'. snd (archiveTask ''t1'' ''2025-01-04T08:00:00.000Z'' board) = Task t'
          \<and> findTaskById ''t1'' (fst (archiveTask ''t1'' ''2025-01-04T08:00:00.000Z'' board)) = Some t'
          \<and> status t' = ''archived'' \<and> progress t' = 2 \<and> target t' = 5)"
proof -
  have h: "findTaskById ''t1'' board = Some checklist"
    by (simp add: findTaskById_def board_def weekly_def checklist_def)
  have c: "progress checklist = 2" "target checklist = 5" "distinct (map id_t board)"
    by (simp_all add: checklist_def weekly_def board_def)
  from archiveTask_frame [OF h, of "''2025-01-04T08:00:00.000Z''"] c h
  show ?thesis by metis
qed

text \<open>
  C9. Where every \<^verbatim>\<open>updatedAt\<close> is a stamp of \<^verbatim>\<open>toISOString\<close> (the clock's readings
  are), the list of tasks is ordered by \<^verbatim>\<open>updatedAt\<close> descending after every operation,
  and so are the three filtered views: this holds of every store the commands reach from
  the empty array or from a sorted array of seeds, every command keeps an ordered store
  ordered, and so does \<^verbatim>\<open>refreshTasks\<close> of the delegating mode. The ordering is stable:
  \<^verbatim>\<open>sortTasks\<close> permutes the tasks (whatever their \<^verbatim>\<open>updatedAt\<close>), keeps tasks with
  equal stamps in the order they had, and leaves an ordered list as it is.
\<close>

theorem listing_descending_stable:
  "(stamped seeds \<and> list_all stampedCommand cmds \<longrightarrow>
      descending (run cmds (sortTasks seeds))
      \<and> stamped (run cmds (sortTasks seeds))
      \<and> descending (activeTasks (run cmds (sortTasks seeds)))
      \<and> descending (completedTasks (run cmds (sortTasks seeds)))
      \<and> descending (archivedTasks (run cmds (sortTasks seeds))))
   \<and> (list_all stampedCommand cmds \<longrightarrow> descending (run cmds []) \<and> stamped (run cmds []))
   \<and> (stamped tasks \<and> descending tasks \<and> stampedCommand c \<longrightarrow>
        descending (fst (exec c tasks)) \<and> stamped (fst (exec c tasks)))
   \<and> (stamped tasks \<and> descending tasks \<and> stampedReply response \<longrightarrow>
        descending (refreshTasks response tasks) \<and> stamped (refreshTasks response tasks))
   \<and> mset (sortTasks tasks) = mset tasks
   \<and> (stamped tasks \<longrightarrow>
        descending (sortTasks tasks)
        \<and> filter (\<lambda>t. updatedAt t = k) (sortTasks tasks) = filter (\<lambda>t. updatedAt t = k) tasks)
   \<and> (stamped tasks \<and> descending tasks \<longrightarrow> sortTasks tasks = tasks)"
proof -
  have seeded: "stamped seeds \<and> list_all stampedCommand cmds \<longrightarrow>
      descending (run cmds (sortTasks seeds)) \<and> stamped (run cmds (sortTasks seeds))"
  proof
    assume a: "stamped seeds \<and> list_all stampedCommand cmds"
    then have "stamped (sortTasks seeds)" "descending (sortTasks seeds)"
      by (simp_all add: stamped_sortTasks descending_sortTasks)
    with a show "descending (run cmds (sortTasks seeds)) \<and> stamped (run cmds (sortTasks seeds))"
      by (intro descending_run) simp_all
  qed
  have empty: "list_all stampedCommand cmds \<longrightarrow> descending (run cmds []) \<and> stamped (run cmds [])"
  proof
    assume "list_all stampedCommand cmds"
    then show "descending (run cmds []) \<and> stamped (run cmds [])"
      by (intro descending_run) (simp_all add: stamped_def descending_def)
  qed
  from seeded empty show ?thesis
    by (simp add: activeTasks_def completedTasks_def archivedTasks_def descending_filter
        descending_exec descending_refreshTasks descending_sortTasks mset_sortTasks
        filter_sortTasks sortTasks_descending_id)
qed

theorem listing_descending_stable_witness:
  "stamped board \<and> descending board
   \<and> stampedCommand (IncreaseProgress ''t1'' ''2025-01-04T08:00:00.000Z'')
   \<and> descending (fst (exec (IncreaseProgress ''t1'' ''2025-01-04T08:00:00.000Z'') board))
   \<and> sortTasks board = board
   \<and> stamped [checklist, weekly] \<and> list_all stampedCommand session
   \<and> descending (run session (sortTasks [checklist, weekly]))
   \<and> descending (run session [])
   \<and> stampedReply listed \<and> descending (refreshTasks listed board)
   \<and> map id_t (refreshTasks listed board) = [''n2'', ''n1'']"
proof -
  have h: "stamped board" "descending board" "stamped [checklist, weekly]"
    "stampedCommand (IncreaseProgress ''t1'' ''2025-01-04T08:00:00.000Z'')"
    "list_all stampedCommand session" "stampedReply listed"
    "map id_t (refreshTasks listed board) = [''n2'', ''n1'']"
    by code_simp+
  from listing_descending_stable
    [of "[checklist, weekly]" session board "IncreaseProgress ''t1'' ''2025-01-04T08:00:00.000Z''" listed] h
  show ?thesis by blast
qed

text \<open>
  C10. The percentage shown by the task card is an integer, and the division behind it
  never has a zero divisor: a target that is 0 or missing is replaced by 1. The value is
  at most 100 for every input, a value above 100 being capped at 100, and it is at least 0
  for every task of the data model (progress a non-negative count, target non-negative or
  missing). In particular it lies between 0 and 100 for every task in a store that the
  panel's commands have built from the empty array. The bounds hold for any rounding
  \<open>fl\<close> of the intermediate results that keeps non-negative numbers non-negative, as
  rounding to a double does.
\<close>

theorem progressPercentage_range:
  assumes "\<forall>x. 0 \<le> x \<longrightarrow> 0 \<le> fl x"
  shows "divisor tgt \<noteq> 0
      \<and> (tgt = None \<or> tgt = Some 0 \<longrightarrow> divisor tgt = 1)
      \<and> progressPercentage fl prog tgt \<le> 100
      \<and> (100 < js_round (fl (fl (prog / divisor tgt) * 100)) \<longrightarrow>
            progressPercentage fl prog tgt = 100)
      \<and> (0 \<le> prog \<and> (case tgt of None \<Rightarrow> True | Some t \<Rightarrow> 0 \<le> t) \<longrightarrow>
            0 \<le> progressPercentage fl prog tgt)
      \<and> (list_all fromPanel cmds \<longrightarrow>
            list_all (\<lambda>t. 0 \<le> cardPercentage fl t \<and> cardPercentage fl t \<le> 100) (run cmds []))"
proof -
  have "tgt = None \<or> tgt = Some 0 \<longrightarrow> divisor tgt = 1"
    by (auto simp: divisor_def)
  moreover have "100 < js_round (fl (fl (prog / divisor tgt) * 100)) \<longrightarrow>
            progressPercentage fl prog tgt = 100"
    by (simp add: progressPercentage_def Let_def)
  moreover have "0 \<le> prog \<and> (case tgt of None \<Rightarrow> True | Some t \<Rightarrow> 0 \<le> t) \<longrightarrow>
            0 \<le> progressPercentage fl prog tgt"
    using assms by (simp add: progressPercentage_ge)
  moreover have "list_all fromPanel cmds \<longrightarrow>
            list_all (\<lambda>t. 0 \<le> cardPercentage fl t \<and> cardPercentage fl t \<le> 100) (run cmds [])"
  proof
    assume "list_all fromPanel cmds"
    then have "list_all counts (run cmds [])"
      by (intro counts_run) simp_all
    then have "\<forall>t \<in> set (run cmds []). 0 \<le> cardPercentage fl t"
      using assms by (auto simp: list_all_iff counts_def cardPercentage_def intro!: progressPercentage_ge)
    then show "list_all (\<lambda>t. 0 \<le> cardPercentage fl t \<and> cardPercentage fl t \<le> 100) (run cmds [])"
      by (simp add: list_all_iff cardPercentage_def progressPercentage_le)
  qed
  ultimately show ?thesis
    by (simp add: divisor_nonzero progressPercentage_le)
qed

theorem progressPercentage_range_witness:
  "(0::rat) \<le> 2
   \<and> progressPercentage (\<lambda>y. y) 2 (Some 3) = 67
   \<and> 0 \<le> progressPercentage (\<lambda>y. y) 2 (Some 3) \<and> progressPercentage (\<lambda>y. y) 2 (Some 3) \<le> 100
   \<and> divisor (Some 3) \<noteq> 0
   \<and> divisor (Some 0) = 1
   \<and> 100 < js_round ((\<lambda>y. y) ((\<lambda>y. y) (7 / divisor (Some 0)) * 100))
   \<and> progressPercentage (\<lambda>y. y) 7 (Some 0) = 100
   \<and> list_all fromPanel (session @ [lowerTarget])
   \<and> list_all (\<lambda>t. 0 \<le> cardPercentage (\<lambda>y. y) t \<and> cardPercentage (\<lambda>y. y) t \<le> 100)
        (run (session @ [lowerTarget]) [])
   \<and> map (cardPercentage (\<lambda>y. y)) (run (session @ [lowerTarget]) []) = [100]"
proof -
  have h: "\<forall>x::rat. 0 \<le> x \<longrightarrow> 0 \<le> (\<lambda>y. y) x" by simp
  have v: "progressPercentage (\<lambda>y. y) 2 (Some 3) = 67"
    "map (cardPercentage (\<lambda>y. y)) (run (session @ [lowerTarget]) []) = [100]"
    "100 < js_round ((\<lambda>y. y) ((\<lambda>y. y) (7 / divisor (Some 0)) * 100))"
    by code_simp+
  have p: "list_all fromPanel (session @ [lowerTarget])"
    by code_simp
  from progressPercentage_range [OF h, of "Some 3" 2 "session @ [lowerTarget]"]
    progressPercentage_range [OF h, of "Some 0" 7 "[]"] v p
  show ?thesis by simp
qed

end
